theory Spec2Isabelle
  imports Main
begin

section \<open>ReaderWriterLock (src/lib/readerwriterlock.ts)\<close>

subsection \<open>Data model\<close>

text \<open>
  Objects of the program are identified by the number under which they were allocated.
  A handle is one of the four objects returned by \<open>_takeReadLock\<close>, \<open>_takeWriteLock\<close>,
  \<open>_takeUpgradeableReadLock\<close> and \<open>_takeUpgradeLock\<close>.
\<close>

datatype handle = ReadLock nat | WriteLock nat | UpgradeableLock nat | UpgradeLock nat

text \<open>The two errors of the class: \<open>Error("Lock already released.")\<close> and \<open>CancelError\<close>.\<close>

datatype error = LockAlreadyReleased | CancelError

text \<open>The state of a settled promise of a handle; a pending promise has no outcome.\<close>

datatype outcome = Resolved handle | Rejected error

text \<open>
  A queued waiter is the closure pushed on one of the four linked lists. It captures the
  promise it settles and the cancellation token of the request (\<open>None\<close>: no token).
\<close>

type_synonym waiter = "nat \<times> nat option"

text \<open>
  Modelled from the spec: a \<open>LinkedList\<close> (\<open>./list\<close>, not among the source files) is the
  list of its values from head to tail: \<open>push\<close> appends at the tail, \<open>shift\<close> removes the
  head (\<open>undefined\<close> on the empty list), \<open>forEach\<close> visits from head to tail, \<open>clear\<close>
  empties the list, \<open>size\<close> is its length.

  The fields of the class, followed by the store the closures share: \<open>released\<close> holds the
  variable \<open>released\<close> of each read and write handle, \<open>settled\<close> the outcome of each
  promise, \<open>cancelled\<close> the tokens whose \<open>cancellationRequested\<close> is true, and \<open>fresh\<close>
  is the next unused object identity.
\<close>

record rwl =
  readers :: "waiter list"
  upgradeables :: "waiter list"
  upgrades :: "waiter list"
  writers :: "waiter list"
  upgradeable :: "nat option"
  upgraded :: "nat option"
  count :: int
  released :: "handle \<rightharpoonup> bool"
  settled :: "nat \<rightharpoonup> outcome"
  cancelled :: "nat set"
  fresh :: nat

definition init :: rwl where
  "init = \<lparr>readers = [], upgradeables = [], upgrades = [], writers = [],
           upgradeable = None, upgraded = None, count = 0,
           released = Map.empty, settled = Map.empty, cancelled = {}, fresh = 0\<rparr>"

subsection \<open>Promises and tokens\<close>

text \<open>
  Modelled from the spec: the cancellation token (\<open>./cancellation\<close>, not among the source
  files) tells whether cancellation was requested; a token of none is never cancelled.
\<close>

definition cancellationRequested :: "rwl \<Rightarrow> nat option \<Rightarrow> bool" where
  "cancellationRequested s tok = (case tok of None \<Rightarrow> False | Some t \<Rightarrow> t \<in> cancelled s)"

text \<open>
  Modelled from the spec: a promise is a one-shot cell. The first call of its \<open>resolve\<close>
  or \<open>reject\<close> settles it, later calls do nothing.
\<close>

definition settle :: "nat \<Rightarrow> outcome \<Rightarrow> rwl \<Rightarrow> rwl" where
  "settle p r s = (if settled s p = None then s\<lparr>settled := (settled s)(p \<mapsto> r)\<rparr> else s)"

subsection \<open>Admission predicates\<close>

definition canTakeReadLock :: "rwl \<Rightarrow> bool" where
  "canTakeReadLock s \<longleftrightarrow>
     count s \<ge> 0 \<and> length (writers s) = 0 \<and> length (upgrades s) = 0 \<and> length (writers s) = 0"

definition canTakeUpgradeableReadLock :: "rwl \<Rightarrow> bool" where
  "canTakeUpgradeableReadLock s \<longleftrightarrow> count s \<ge> 0 \<and> upgradeable s = None"

definition canTakeUpgradeLock :: "rwl \<Rightarrow> bool" where
  "canTakeUpgradeLock s \<longleftrightarrow> count s = 1 \<and> upgradeable s \<noteq> None \<and> upgraded s = None"

definition canTakeWriteLock :: "rwl \<Rightarrow> bool" where
  "canTakeWriteLock s \<longleftrightarrow> count s = 0"

subsection \<open>Taking a lock\<close>

definition takeReadLock :: "rwl \<Rightarrow> handle \<times> rwl" where
  "takeReadLock s =
     (ReadLock (fresh s),
      s\<lparr>count := count s + 1,
        released := (released s)(ReadLock (fresh s) \<mapsto> False),
        fresh := Suc (fresh s)\<rparr>)"

definition takeUpgradeableReadLock :: "rwl \<Rightarrow> handle \<times> rwl" where
  "takeUpgradeableReadLock s =
     (UpgradeableLock (fresh s),
      s\<lparr>count := count s + 1, upgradeable := Some (fresh s), fresh := Suc (fresh s)\<rparr>)"

definition takeUpgradeLock :: "rwl \<Rightarrow> handle \<times> rwl" where
  "takeUpgradeLock s =
     (UpgradeLock (fresh s),
      s\<lparr>upgraded := Some (fresh s), count := - 1, fresh := Suc (fresh s)\<rparr>)"

definition takeWriteLock :: "rwl \<Rightarrow> handle \<times> rwl" where
  "takeWriteLock s =
     (WriteLock (fresh s),
      s\<lparr>count := - 1,
        released := (released s)(WriteLock (fresh s) \<mapsto> False),
        fresh := Suc (fresh s)\<rparr>)"

subsection \<open>The closure of a queued waiter\<close>

text \<open>
  Each of the four request methods pushes the same closure, up to the lock it takes:
  reject with \<open>CancelError\<close> when the token is cancelled, else resolve with the lock taken.
  (\<open>registration.unregister()\<close> has no effect on the state modelled here: a registration
  acts on a waiter only while the waiter is on its list.)
\<close>

definition wake :: "(rwl \<Rightarrow> handle \<times> rwl) \<Rightarrow> waiter \<Rightarrow> rwl \<Rightarrow> rwl" where
  "wake acquire w s =
     (if cancellationRequested s (snd w) then settle (fst w) (Rejected CancelError) s
      else case acquire s of (h, s') \<Rightarrow> settle (fst w) (Resolved h) s')"

subsection \<open>Scheduling\<close>

definition processWriteLockRequest :: "rwl \<Rightarrow> bool \<times> rwl" where
  "processWriteLockRequest s =
     (if canTakeWriteLock s then
        (case writers s of
           [] \<Rightarrow> (False, s)
         | w # ws \<Rightarrow> (True, wake takeWriteLock w (s\<lparr>writers := ws\<rparr>)))
      else (False, s))"

definition processUpgradeRequest :: "rwl \<Rightarrow> bool \<times> rwl" where
  "processUpgradeRequest s =
     (if canTakeUpgradeLock s then
        (case upgrades s of
           [] \<Rightarrow> (False, s)
         | w # ws \<Rightarrow> (True, wake takeUpgradeLock w (s\<lparr>upgrades := ws\<rparr>)))
      else (False, s))"

definition processUpgradeableReadLockRequest :: "rwl \<Rightarrow> rwl" where
  "processUpgradeableReadLockRequest s =
     (if canTakeUpgradeableReadLock s then
        (case upgradeables s of
           [] \<Rightarrow> s
         | w # ws \<Rightarrow> wake takeUpgradeableReadLock w (s\<lparr>upgradeables := ws\<rparr>))
      else s)"

definition processReadLockRequests :: "rwl \<Rightarrow> rwl" where
  "processReadLockRequests s =
     (if canTakeReadLock s then (fold (wake takeReadLock) (readers s) s)\<lparr>readers := []\<rparr>
      else s)"

definition processLockRequests :: "rwl \<Rightarrow> rwl" where
  "processLockRequests s =
     (case processWriteLockRequest s of
        (True, s1) \<Rightarrow> s1
      | (False, s1) \<Rightarrow>
          (case processUpgradeRequest s1 of
             (True, s2) \<Rightarrow> s2
           | (False, s2) \<Rightarrow> processReadLockRequests (processUpgradeableReadLockRequest s2)))"

subsection \<open>Releasing a lock\<close>

definition releaseReadLock :: "rwl \<Rightarrow> rwl" where
  "releaseReadLock s = processLockRequests (s\<lparr>count := count s - 1\<rparr>)"

definition releaseUpgradeableReadLock :: "rwl \<Rightarrow> rwl" where
  "releaseUpgradeableReadLock s =
     processLockRequests
       ((if count s = - 1 then s\<lparr>count := 0\<rparr> else s\<lparr>count := count s - 1\<rparr>)
          \<lparr>upgraded := None, upgradeable := None\<rparr>)"

definition releaseUpgradeLock :: "rwl \<Rightarrow> rwl" where
  "releaseUpgradeLock s = processLockRequests (s\<lparr>upgraded := None, count := 1\<rparr>)"

definition releaseWriteLock :: "rwl \<Rightarrow> rwl" where
  "releaseWriteLock s = processLockRequests (s\<lparr>count := 0\<rparr>)"

text \<open>
  The \<open>release\<close> closure of each kind of handle. A read or write handle tests its own
  variable \<open>released\<close>; an upgradeable or upgrade handle tests its identity against the
  field \<open>_upgradeable\<close> or \<open>_upgraded\<close>. The error is thrown before anything is changed.
  A read or write handle that was never handed out has no closure, and is refused.
\<close>

fun release :: "handle \<Rightarrow> rwl \<Rightarrow> error + rwl" where
  "release (ReadLock h) s =
     (if released s (ReadLock h) \<noteq> Some False then Inl LockAlreadyReleased
      else Inr (releaseReadLock (s\<lparr>released := (released s)(ReadLock h \<mapsto> True)\<rparr>)))"
| "release (WriteLock h) s =
     (if released s (WriteLock h) \<noteq> Some False then Inl LockAlreadyReleased
      else Inr (releaseWriteLock (s\<lparr>released := (released s)(WriteLock h \<mapsto> True)\<rparr>)))"
| "release (UpgradeableLock h) s =
     (if upgradeable s \<noteq> Some h then Inl LockAlreadyReleased
      else Inr (releaseUpgradeableReadLock s))"
| "release (UpgradeLock h) s =
     (if upgraded s \<noteq> Some h then Inl LockAlreadyReleased
      else Inr (releaseUpgradeLock s))"

subsection \<open>Requesting a lock\<close>

text \<open>
  Each request allocates its promise, then runs the executor: a cancelled token rejects
  the promise (the throw of \<open>throwIfCancellationRequested\<close> inside the executor), a lock
  that can be taken resolves it at once, otherwise the waiter is pushed at the tail of its
  list. The result is the promise with the new state. (The method \<open>write\<close> is named
  \<open>writeLock\<close> here, \<open>write\<close> being a keyword of Isabelle.)
\<close>

definition newPromise :: "rwl \<Rightarrow> nat \<times> rwl" where
  "newPromise s = (fresh s, s\<lparr>fresh := Suc (fresh s)\<rparr>)"

definition read :: "nat option \<Rightarrow> rwl \<Rightarrow> nat \<times> rwl" where
  "read tok s0 =
     (case newPromise s0 of (p, s) \<Rightarrow>
        if cancellationRequested s tok then (p, settle p (Rejected CancelError) s)
        else if canTakeReadLock s then
          (case takeReadLock s of (h, s') \<Rightarrow> (p, settle p (Resolved h) s'))
        else (p, s\<lparr>readers := readers s @ [(p, tok)]\<rparr>))"

definition upgradeableRead :: "nat option \<Rightarrow> rwl \<Rightarrow> nat \<times> rwl" where
  "upgradeableRead tok s0 =
     (case newPromise s0 of (p, s) \<Rightarrow>
        if cancellationRequested s tok then (p, settle p (Rejected CancelError) s)
        else if canTakeUpgradeableReadLock s then
          (case takeUpgradeableReadLock s of (h, s') \<Rightarrow> (p, settle p (Resolved h) s'))
        else (p, s\<lparr>upgradeables := upgradeables s @ [(p, tok)]\<rparr>))"

definition writeLock :: "nat option \<Rightarrow> rwl \<Rightarrow> nat \<times> rwl" where
  "writeLock tok s0 =
     (case newPromise s0 of (p, s) \<Rightarrow>
        if cancellationRequested s tok then (p, settle p (Rejected CancelError) s)
        else if canTakeWriteLock s then
          (case takeWriteLock s of (h, s') \<Rightarrow> (p, settle p (Resolved h) s'))
        else (p, s\<lparr>writers := writers s @ [(p, tok)]\<rparr>))"

definition upgrade :: "nat option \<Rightarrow> rwl \<Rightarrow> nat \<times> rwl" where
  "upgrade tok s0 =
     (case newPromise s0 of (p, s) \<Rightarrow>
        if cancellationRequested s tok then (p, settle p (Rejected CancelError) s)
        else if canTakeUpgradeLock s then
          (case takeUpgradeLock s of (h, s') \<Rightarrow> (p, settle p (Resolved h) s'))
        else (p, s\<lparr>upgrades := upgrades s @ [(p, tok)]\<rparr>))"

text \<open>The \<open>upgrade\<close> closure of the upgradeable handle \<open>h\<close>.\<close>

definition hold_upgrade :: "nat \<Rightarrow> nat option \<Rightarrow> rwl \<Rightarrow> error + nat \<times> rwl" where
  "hold_upgrade h tok s =
     (if upgradeable s \<noteq> Some h then Inl LockAlreadyReleased else Inr (upgrade tok s))"

subsection \<open>Cancellation\<close>

text \<open>
  Modelled from the spec: requesting the cancellation of a token (\<open>./cancellation\<close>, not
  among the source files) sets its flag; the callbacks registered on the token run
  afterwards, each as an event of its own (the cancellation callback is one of the atomic
  events of the spec). Another event may thus come between the request and the callback
  of a queued waiter: the case the closure of the waiter tests for.
\<close>

definition cancelRequest :: "nat \<Rightarrow> rwl \<Rightarrow> rwl" where
  "cancelRequest t s = s\<lparr>cancelled := insert t (cancelled s)\<rparr>"

text \<open>
  Modelled from the spec: \<open>deleteNode\<close> of the linked list (\<open>./list\<close>, not among the
  source files) takes a node off its list and leaves the other nodes in their order.
\<close>

definition deleteNode :: "waiter \<Rightarrow> waiter list \<Rightarrow> waiter list" where
  "deleteNode w ws = filter (\<lambda>v. v \<noteq> w) ws"

text \<open>
  The callback that a request registers on its token (the second closure of \<open>read\<close>,
  \<open>upgradeableRead\<close>, \<open>write\<close> and \<open>_upgrade\<close>): when the node of the request is still on a
  list (\<open>node.list\<close>), delete it there and reject the promise. A node is on one list at
  most.
\<close>

definition cancelCallback :: "waiter \<Rightarrow> rwl \<Rightarrow> rwl" where
  "cancelCallback w s =
     (if w \<in> set (readers s @ upgradeables s @ upgrades s @ writers s) then
        settle (fst w) (Rejected CancelError)
          (s\<lparr>readers := deleteNode w (readers s),
             upgradeables := deleteNode w (upgradeables s),
             upgrades := deleteNode w (upgrades s),
             writers := deleteNode w (writers s)\<rparr>)
      else s)"

subsection \<open>Executions\<close>

text \<open>
  An event is one call from outside, run to completion. A call that throws leaves the
  state as it was. \<open>Cancel t\<close> requests the cancellation of token \<open>t\<close>; \<open>Callback w\<close> is the
  token running the callback registered by the request of waiter \<open>w\<close>, which it does only
  once the cancellation of the token of \<open>w\<close> was requested.
\<close>

datatype event =
    Read "nat option"
  | UpgradeableRead "nat option"
  | Write "nat option"
  | Upgrade nat "nat option"
  | Release handle
  | Cancel nat
  | Callback waiter

fun step :: "event \<Rightarrow> rwl \<Rightarrow> rwl" where
  "step (Read tok) s = snd (read tok s)"
| "step (UpgradeableRead tok) s = snd (upgradeableRead tok s)"
| "step (Write tok) s = snd (writeLock tok s)"
| "step (Upgrade h tok) s = (case hold_upgrade h tok s of Inl e \<Rightarrow> s | Inr (p, s') \<Rightarrow> s')"
| "step (Release h) s = (case release h s of Inl e \<Rightarrow> s | Inr s' \<Rightarrow> s')"
| "step (Cancel t) s = cancelRequest t s"
| "step (Callback w) s = (if cancellationRequested s (snd w) then cancelCallback w s else s)"

definition exec :: "event list \<Rightarrow> rwl \<Rightarrow> rwl" where
  "exec evs s = fold step evs s"

inductive reachable :: "rwl \<Rightarrow> bool" where
  reachable_init: "reachable init"
| reachable_step: "reachable s \<Longrightarrow> reachable (step e s)"


subsection \<open>Observations and invariants\<close>

text \<open>The identity of a handle, and the waiters of the four lists.\<close>

fun hid :: "handle \<Rightarrow> nat" where
  "hid (ReadLock n) = n"
| "hid (WriteLock n) = n"
| "hid (UpgradeableLock n) = n"
| "hid (UpgradeLock n) = n"

definition queued :: "rwl \<Rightarrow> waiter list" where
  "queued s = readers s @ upgradeables s @ upgrades s @ writers s"

text \<open>
  The read handles handed out so far, and the promises resolved with a read handle: a read
  lock is taken exactly when one of the two grows.
\<close>

definition readHandles :: "rwl \<Rightarrow> nat set" where
  "readHandles s = {n. released s (ReadLock n) \<noteq> None}"

definition readGrants :: "rwl \<Rightarrow> nat set" where
  "readGrants s = {p. \<exists>n. settled s p = Some (Resolved (ReadLock n))}"

text \<open>
  Well-formedness of the store: every object in use was allocated, a queued waiter is
  pending, and no promise is queued twice.
\<close>

definition wellformed :: "rwl \<Rightarrow> bool" where
  "wellformed s \<longleftrightarrow>
     (\<forall>h. released s h \<noteq> None \<longrightarrow> hid h < fresh s) \<and>
     (\<forall>p. settled s p \<noteq> None \<longrightarrow> p < fresh s) \<and>
     (\<forall>h. upgradeable s = Some h \<longrightarrow> h < fresh s) \<and>
     (\<forall>g. upgraded s = Some g \<longrightarrow> g < fresh s) \<and>
     (\<forall>w \<in> set (queued s). fst w < fresh s \<and> settled s (fst w) = None) \<and>
     distinct (map fst (queued s))"

text \<open>
  The census: \<open>count\<close> against the handles that are held. \<open>live k m\<close> are the handles of
  kind \<open>k\<close> whose variable \<open>released\<close> is still false.
\<close>

definition live :: "(nat \<Rightarrow> handle) \<Rightarrow> (handle \<rightharpoonup> bool) \<Rightarrow> nat set" where
  "live k m = {n. m (k n) = Some False}"

definition census :: "rwl \<Rightarrow> bool" where
  "census s \<longleftrightarrow>
     (\<forall>h. released s h \<noteq> None \<longrightarrow> hid h < fresh s) \<and>
     finite (live ReadLock (released s)) \<and> finite (live WriteLock (released s)) \<and>
     (case (upgradeable s, upgraded s) of
        (None, None) \<Rightarrow>
          (count s = - 1 \<and> card (live WriteLock (released s)) = 1
             \<and> live ReadLock (released s) = {})
          \<or> (count s = int (card (live ReadLock (released s)))
             \<and> live WriteLock (released s) = {})
      | (Some h, None) \<Rightarrow>
          count s = int (card (live ReadLock (released s))) + 1
            \<and> live WriteLock (released s) = {}
      | (Some h, Some g) \<Rightarrow>
          count s = - 1 \<and> live ReadLock (released s) = {} \<and> live WriteLock (released s) = {}
      | (None, Some g) \<Rightarrow> False)"

text \<open>
  A read or write handle is issued when its closure exists; every promise resolved with a
  read or write handle holds an issued one.
\<close>

definition issued :: "(handle \<rightharpoonup> bool) \<Rightarrow> handle \<Rightarrow> bool" where
  "issued m h =
     (case h of ReadLock n \<Rightarrow> m h \<noteq> None | WriteLock n \<Rightarrow> m h \<noteq> None | _ \<Rightarrow> True)"

definition granted :: "rwl \<Rightarrow> bool" where
  "granted s \<longleftrightarrow> (\<forall>p h. settled s p = Some (Resolved h) \<longrightarrow> issued (released s) h)"

text \<open>
  What an operation that only takes locks and settles promises leaves alone: it allocates
  upwards, keeps the variable \<open>released\<close> of every existing handle, keeps the outcome of
  every settled promise, cancels no token, sets \<open>_upgraded\<close> only to a new handle,
  releases no handle, and resolves promises only with issued handles.
\<close>

definition extends :: "rwl \<Rightarrow> rwl \<Rightarrow> bool" where
  "extends s s' \<longleftrightarrow>
     fresh s \<le> fresh s' \<and>
     (\<forall>h. hid h < fresh s \<longrightarrow> released s' h = released s h) \<and>
     (\<forall>p x. settled s p = Some x \<longrightarrow> settled s' p = Some x) \<and>
     cancelled s' = cancelled s \<and>
     (upgraded s' = upgraded s \<or> (\<exists>g. upgraded s' = Some g \<and> fresh s \<le> g)) \<and>
     (\<forall>h. released s' h = Some True \<longrightarrow> released s h = Some True) \<and>
     (\<forall>h. released s h \<noteq> None \<longrightarrow> released s' h \<noteq> None) \<and>
     (\<forall>p h. settled s' p = Some (Resolved h) \<longrightarrow>
        settled s p = Some (Resolved h) \<or> issued (released s') h)"

text \<open>
  The states at the boundary of an operation: the states between two calls from outside,
  the state in which each of the four release methods enters \<open>_processLockRequests\<close>,
  and the state after each of the four steps of \<open>_processLockRequests\<close>.
\<close>

inductive boundary :: "rwl \<Rightarrow> bool" where
  boundary_call: "reachable s \<Longrightarrow> boundary s"
| boundary_releaseRead:
    "reachable s \<Longrightarrow> released s (ReadLock n) = Some False \<Longrightarrow>
     boundary (s\<lparr>released := (released s)(ReadLock n \<mapsto> True), count := count s - 1\<rparr>)"
| boundary_releaseWrite:
    "reachable s \<Longrightarrow> released s (WriteLock n) = Some False \<Longrightarrow>
     boundary (s\<lparr>released := (released s)(WriteLock n \<mapsto> True), count := 0\<rparr>)"
| boundary_releaseUpgradeable:
    "reachable s \<Longrightarrow> upgradeable s = Some h \<Longrightarrow>
     boundary (s\<lparr>count := (if count s = - 1 then 0 else count s - 1),
                 upgraded := None, upgradeable := None\<rparr>)"
| boundary_releaseUpgrade:
    "reachable s \<Longrightarrow> upgraded s = Some g \<Longrightarrow>
     boundary (s\<lparr>upgraded := None, count := 1\<rparr>)"
| boundary_processWrite: "boundary s \<Longrightarrow> boundary (snd (processWriteLockRequest s))"
| boundary_processUpgrade: "boundary s \<Longrightarrow> boundary (snd (processUpgradeRequest s))"
| boundary_processUpgradeable:
    "boundary s \<Longrightarrow> boundary (processUpgradeableReadLockRequest s)"
| boundary_processRead: "boundary s \<Longrightarrow> boundary (processReadLockRequests s)"

section \<open>AsyncQueue (src/lib/queue.ts)\<close>

subsection \<open>Data model\<close>

text \<open>
  A value of type \<open>'a\<close> stands for what \<open>put\<close> is given (a value or a promise of one).
  The promise \<open>get\<close> returns is either an entry of \<open>_available\<close>, that is
  \<open>Promise.resolve(value)\<close>, or a new promise whose \<open>resolve\<close> function went on \<open>_pending\<close>;
  new promises are numbered in the order of their creation.
\<close>

datatype 'a promise = Settled 'a | Deferred nat

text \<open>
  The two fields are \<open>undefined\<close> (\<open>None\<close>) or an array. \<open>resolved\<close> holds what each
  \<open>resolve\<close> function was called with and \<open>created\<close> counts the promises made by \<open>get\<close>.
\<close>

record 'a queue =
  available :: "'a list option"
  pending :: "nat list option"
  resolved :: "nat \<rightharpoonup> 'a"
  created :: nat

text \<open>
  The constructor, given no iterable (\<open>None\<close>) or the values of one, in the order of
  iteration. An argument that is not iterable (the \<open>TypeError\<close>) has no counterpart in
  this type.
\<close>

definition AsyncQueue :: "'a list option \<Rightarrow> 'a queue" where
  "AsyncQueue iterable =
     (case iterable of
        None \<Rightarrow> \<lparr>available = None, pending = None, resolved = Map.empty, created = 0\<rparr>
      | Some vs \<Rightarrow>
          \<lparr>available = Some (fold (\<lambda>v a. a @ [v]) vs []), pending = None,
           resolved = Map.empty, created = 0\<rparr>)"

definition size_q :: "'a queue \<Rightarrow> int" where
  "size_q q =
     (case available q of
        Some (a # as) \<Rightarrow> int (length (a # as))
      | _ \<Rightarrow>
          (case pending q of
             Some (r # rs) \<Rightarrow> - int (length (r # rs))
           | _ \<Rightarrow> 0))"

text \<open>A \<open>resolve\<close> function settles its promise once.\<close>

definition resolve :: "nat \<Rightarrow> 'a \<Rightarrow> 'a queue \<Rightarrow> 'a queue" where
  "resolve r v q = (if resolved q r = None then q\<lparr>resolved := (resolved q)(r \<mapsto> v)\<rparr> else q)"

definition put :: "'a \<Rightarrow> 'a queue \<Rightarrow> 'a queue" where
  "put v q =
     (case pending q of
        Some (r # rs) \<Rightarrow> resolve r v (q\<lparr>pending := Some rs\<rparr>)
      | _ \<Rightarrow>
          q\<lparr>available := Some ((case available q of None \<Rightarrow> [] | Some as \<Rightarrow> as) @ [v])\<rparr>)"

definition get :: "'a queue \<Rightarrow> 'a promise \<times> 'a queue" where
  "get q =
     (case available q of
        Some (a # as) \<Rightarrow> (Settled a, q\<lparr>available := Some as\<rparr>)
      | _ \<Rightarrow>
          (Deferred (created q),
           q\<lparr>pending := Some ((case pending q of None \<Rightarrow> [] | Some rs \<Rightarrow> rs) @ [created q]),
             created := Suc (created q)\<rparr>))"

subsection \<open>Executions and observations\<close>

datatype 'a qop = Put 'a | Get

text \<open>Running a sequence of calls; the result lists the promises the calls of \<open>get\<close> returned.\<close>

fun run :: "'a qop list \<Rightarrow> 'a queue \<Rightarrow> 'a promise list \<times> 'a queue" where
  "run [] q = ([], q)"
| "run (Put v # ops) q = run ops (put v q)"
| "run (Get # ops) q =
     (case get q of (p, q') \<Rightarrow> (case run ops q' of (ps, q'') \<Rightarrow> (p # ps, q'')))"

fun puts :: "'a qop list \<Rightarrow> 'a list" where
  "puts [] = []"
| "puts (Put v # ops) = v # puts ops"
| "puts (Get # ops) = puts ops"

text \<open>The value a promise returned by \<open>get\<close> has received in a state, if any.\<close>

definition received :: "'a queue \<Rightarrow> 'a promise \<Rightarrow> 'a option" where
  "received q p = (case p of Settled v \<Rightarrow> Some v | Deferred r \<Rightarrow> resolved q r)"

definition avail :: "'a queue \<Rightarrow> 'a list" where
  "avail q = (case available q of None \<Rightarrow> [] | Some as \<Rightarrow> as)"

definition pend :: "'a queue \<Rightarrow> nat list" where
  "pend q = (case pending q of None \<Rightarrow> [] | Some rs \<Rightarrow> rs)"

inductive qreach :: "'a queue \<Rightarrow> bool" where
  qreach_new: "qreach (AsyncQueue iterable)"
| qreach_put: "qreach q \<Longrightarrow> qreach (put v q)"
| qreach_get: "qreach q \<Longrightarrow> qreach (snd (get q))"

definition qinv :: "'a queue \<Rightarrow> bool" where
  "qinv q \<longleftrightarrow> avail q = [] \<or> pend q = []"

text \<open>
  The rendezvous invariant, for the promises \<open>G\<close> returned by \<open>get\<close> so far and the values
  \<open>P\<close> supplied so far: the buffer holds the values not yet taken, the list of waiting
  consumers holds the promises not yet served, and each served promise has its value.
\<close>

definition rendezvous :: "'a queue \<Rightarrow> 'a promise list \<Rightarrow> 'a list \<Rightarrow> bool" where
  "rendezvous q G P \<longleftrightarrow>
     (length G \<le> length P \<longrightarrow> avail q = drop (length G) P \<and> pend q = []) \<and>
     (length P \<le> length G \<longrightarrow> avail q = [] \<and> map Deferred (pend q) = drop (length P) G) \<and>
     (\<forall>k. k < length G \<and> k < length P \<longrightarrow> received q (G ! k) = Some (P ! k)) \<and>
     distinct (pend q) \<and>
     (\<forall>r \<in> set (pend q). resolved q r = None) \<and>
     (\<forall>r. resolved q r \<noteq> None \<longrightarrow> r < created q) \<and>
     (\<forall>r \<in> set (pend q). r < created q)"

section \<open>Properties of AsyncQueue\<close>

subsection \<open>The buffer and the waiting consumers exclude each other\<close>

lemma AsyncQueue_avail: "avail (AsyncQueue it) = (case it of None \<Rightarrow> [] | Some vs \<Rightarrow> vs)"
proof -
  have "fold (\<lambda>v a. a @ [v]) vs acc = acc @ vs" for vs acc :: "'a list"
    by (induction vs arbitrary: acc) auto
  then show ?thesis
    by (simp add: AsyncQueue_def avail_def split: option.splits)
qed

lemma AsyncQueue_pend: "pend (AsyncQueue it) = []"
  by (simp add: AsyncQueue_def pend_def split: option.splits)

lemma qinv_put: "qinv q \<Longrightarrow> qinv (put v q)"
  by (auto simp: qinv_def put_def avail_def pend_def resolve_def split: option.splits list.splits)

lemma qinv_get: "qinv q \<Longrightarrow> qinv (snd (get q))"
  by (auto simp: qinv_def get_def avail_def pend_def split: option.splits list.splits)

lemma qinv_reach: "qreach q \<Longrightarrow> qinv q"
proof (induction rule: qreach.induct)
  case (qreach_new iterable)
  show ?case by (simp add: qinv_def AsyncQueue_pend)
qed (simp_all add: qinv_put qinv_get)

lemma size_q_eq:
  "size_q q = (if avail q \<noteq> [] then int (length (avail q))
               else if pend q \<noteq> [] then - int (length (pend q)) else 0)"
  by (auto simp: size_q_def avail_def pend_def split: option.splits list.splits)

text \<open>
  C7: in every reachable state of AsyncQueue the buffer \<open>available\<close> and the list
  \<open>pending\<close> are never both non-empty: this holds of a new queue, every \<open>put\<close> and \<open>get\<close>
  preserves it, hence it holds of every reachable state. \<open>size\<close> is the length of the
  buffer when it is non-empty, minus the length of \<open>pending\<close> when consumers wait, else 0.
\<close>

theorem queue_invariant:
  "qinv (AsyncQueue iterable) \<and>
   (qinv q \<longrightarrow> qinv (put v q) \<and> qinv (snd (get q))) \<and>
   (qreach q \<longrightarrow> (avail q = [] \<or> pend q = [])) \<and>
   size_q q = (if avail q \<noteq> [] then int (length (avail q))
               else if pend q \<noteq> [] then - int (length (pend q)) else 0)"
proof -
  have "qinv (AsyncQueue iterable)"
    by (simp add: qinv_def AsyncQueue_pend)
  moreover have "qreach q \<longrightarrow> (avail q = [] \<or> pend q = [])"
    using qinv_reach [of q] by (simp add: qinv_def)
  ultimately show ?thesis
    using size_q_eq [of q] by (simp add: qinv_put qinv_get)
qed

theorem queue_invariant_witness:
  "qinv (put (7::nat) (put 5 (AsyncQueue None))) \<and>
   qreach (put (7::nat) (put 5 (AsyncQueue None))) \<and>
   qinv (put 9 (put (7::nat) (put 5 (AsyncQueue None)))) \<and>
   qinv (snd (get (put (7::nat) (put 5 (AsyncQueue None))))) \<and>
   avail (put (7::nat) (put 5 (AsyncQueue None))) = [5, 7] \<and>
   pend (put (7::nat) (put 5 (AsyncQueue None))) = [] \<and>
   size_q (put (7::nat) (put 5 (AsyncQueue None))) = 2"
proof -
  have r: "qreach (put (7::nat) (put 5 (AsyncQueue None)))"
    by (intro qreach.intros)
  have a: "avail (put (7::nat) (put 5 (AsyncQueue None))) = [5, 7]"
    "pend (put (7::nat) (put 5 (AsyncQueue None))) = []"
    by (simp_all add: put_def AsyncQueue_def avail_def pend_def)
  have i: "qinv (put (7::nat) (put 5 (AsyncQueue None)))"
    by (simp add: qinv_def a)
  show ?thesis
    using queue_invariant [of "None :: nat list option" "put (7::nat) (put 5 (AsyncQueue None))" 9] r i
    by (simp add: a)
qed

subsection \<open>First in, first out\<close>

lemma rendezvous_new:
  "rendezvous (AsyncQueue it) [] (case it of None \<Rightarrow> [] | Some vs \<Rightarrow> vs)"
  unfolding rendezvous_def AsyncQueue_avail AsyncQueue_pend
  by (simp add: AsyncQueue_def split: option.splits)

lemma rendezvous_put_buffer:
  assumes "rendezvous q G P" "pend q = []"
  shows "rendezvous (put v q) G (P @ [v])"
proof -
  have le: "length G \<le> length P"
  proof (rule ccontr)
    assume "\<not> length G \<le> length P"
    then have "length P \<le> length G" "drop (length P) G \<noteq> []" by auto
    with assms show False by (auto simp: rendezvous_def)
  qed
  have p: "put v q = q\<lparr>available := Some (avail q @ [v])\<rparr>"
    using assms(2) by (auto simp: put_def pend_def avail_def split: option.splits list.splits)
  have a: "avail (put v q) = avail q @ [v]" "pend (put v q) = []"
    "resolved (put v q) = resolved q" "created (put v q) = created q"
    using assms(2) by (simp_all add: p avail_def pend_def)
  have recv: "received (put v q) = received q"
    by (rule ext) (simp add: received_def a split: promise.splits)
  show ?thesis
    using assms(1) le unfolding rendezvous_def a recv
    by (auto simp: nth_append)
qed


lemma rendezvous_put_waiting:
  assumes "rendezvous q G P" "pend q = r # rs"
  shows "rendezvous (put v q) G (P @ [v])"
proof -
  have lt: "length P < length G"
  proof (rule ccontr)
    assume "\<not> length P < length G"
    then have "length G \<le> length P" by simp
    with assms show False by (auto simp: rendezvous_def)
  qed
  from assms lt have dr: "map Deferred (r # rs) = drop (length P) G" and av: "avail q = []"
    by (auto simp: rendezvous_def)
  from dr lt have Gr: "G ! length P = Deferred r"
    by (metis Cons_nth_drop_Suc list.inject list.simps(9))
  from dr lt have Grs: "map Deferred rs = drop (Suc (length P)) G"
    by (metis Cons_nth_drop_Suc list.inject list.simps(9))
  from assms have unres: "resolved q r = None" and dist: "r \<notin> set rs" "distinct rs"
    and rs_unres: "\<forall>x \<in> set rs. resolved q x = None"
    and bound: "\<forall>x. resolved q x \<noteq> None \<longrightarrow> x < created q" "\<forall>x \<in> set (r # rs). x < created q"
    by (auto simp: rendezvous_def)
  have p: "put v q = q\<lparr>pending := Some rs, resolved := (resolved q)(r \<mapsto> v)\<rparr>"
    using assms(2) unres by (auto simp: put_def pend_def resolve_def split: option.splits list.splits)
  have a: "avail (put v q) = []" "pend (put v q) = rs"
    "resolved (put v q) = (resolved q)(r \<mapsto> v)" "created (put v q) = created q"
    using av by (simp_all add: p avail_def pend_def)
  have recv: "received (put v q) (G ! k) = Some ((P @ [v]) ! k)"
    if "k < length G" "k < Suc (length P)" for k
  proof (cases "k = length P")
    case True
    then show ?thesis by (simp add: Gr received_def a)
  next
    case False
    with that have kP: "k < length P" by simp
    with that assms(1) have old: "received q (G ! k) = Some (P ! k)"
      by (simp add: rendezvous_def)
    then have "received (put v q) (G ! k) = Some (P ! k)"
      using unres by (auto simp: received_def a split: promise.splits)
    then show ?thesis using kP by (simp add: nth_append)
  qed
  show ?thesis
    unfolding rendezvous_def a
    using lt Grs dist rs_unres bound recv by auto
qed

lemma rendezvous_put: "rendezvous q G P \<Longrightarrow> rendezvous (put v q) G (P @ [v])"
  by (cases "pend q") (auto intro: rendezvous_put_buffer rendezvous_put_waiting)

lemma rendezvous_get_buffer:
  assumes "rendezvous q G P" "avail q = a # as"
  shows "get q = (Settled a, snd (get q)) \<and> rendezvous (snd (get q)) (G @ [Settled a]) P"
proof -
  have lt: "length G < length P"
  proof (rule ccontr)
    assume "\<not> length G < length P"
    then have "length P \<le> length G" by simp
    with assms show False by (auto simp: rendezvous_def)
  qed
  from assms lt have dr: "a # as = drop (length G) P" and pe: "pend q = []"
    by (auto simp: rendezvous_def)
  from dr lt have Pa: "P ! length G = a" and das: "as = drop (Suc (length G)) P"
    by (metis Cons_nth_drop_Suc list.inject)+
  have g: "get q = (Settled a, q\<lparr>available := Some as\<rparr>)"
    using assms(2) by (auto simp: get_def avail_def split: option.splits list.splits)
  have a: "avail (snd (get q)) = as" "pend (snd (get q)) = []"
    "resolved (snd (get q)) = resolved q" "created (snd (get q)) = created q"
    using pe by (simp_all add: g avail_def pend_def)
  have recv: "received (snd (get q)) = received q"
    by (rule ext) (simp add: received_def a split: promise.splits)
  have "rendezvous (snd (get q)) (G @ [Settled a]) P"
    using assms(1) lt das Pa unfolding rendezvous_def a recv
    by (auto simp: nth_append received_def less_Suc_eq)
  then show ?thesis by (simp add: g)
qed

lemma rendezvous_get_waiting:
  assumes "rendezvous q G P" "avail q = []"
  shows "get q = (Deferred (created q), snd (get q)) \<and>
         rendezvous (snd (get q)) (G @ [Deferred (created q)]) P"
proof -
  have le: "length P \<le> length G"
  proof (rule ccontr)
    assume "\<not> length P \<le> length G"
    then have "length G \<le> length P" "drop (length G) P \<noteq> []" by auto
    with assms show False by (auto simp: rendezvous_def)
  qed
  from assms le have dr: "map Deferred (pend q) = drop (length P) G"
    by (auto simp: rendezvous_def)
  from assms have inv: "distinct (pend q)" "\<forall>r \<in> set (pend q). resolved q r = None"
    "\<forall>r. resolved q r \<noteq> None \<longrightarrow> r < created q" "\<forall>r \<in> set (pend q). r < created q"
    by (auto simp: rendezvous_def)
  have fresh_unres: "resolved q (created q) = None"
    using inv(3) by (metis less_irrefl)
  have g: "get q = (Deferred (created q),
             q\<lparr>pending := Some (pend q @ [created q]), created := Suc (created q)\<rparr>)"
    using assms(2) by (auto simp: get_def avail_def pend_def split: option.splits list.splits)
  have a: "avail (snd (get q)) = []" "pend (snd (get q)) = pend q @ [created q]"
    "resolved (snd (get q)) = resolved q" "created (snd (get q)) = Suc (created q)"
    using assms(2) by (simp_all add: g avail_def pend_def)
  have recv: "received (snd (get q)) = received q"
    by (rule ext) (simp add: received_def a split: promise.splits)
  have "rendezvous (snd (get q)) (G @ [Deferred (created q)]) P"
    using assms(1) le dr inv fresh_unres unfolding rendezvous_def a recv
    by (auto simp: nth_append less_Suc_eq)
  then show ?thesis by (simp add: g)
qed

lemma rendezvous_get:
  "rendezvous q G P \<Longrightarrow> get q = (p, q') \<Longrightarrow> rendezvous q' (G @ [p]) P"
  using rendezvous_get_buffer [of q G P] rendezvous_get_waiting [of q G P]
  by (cases "avail q") auto

lemma rendezvous_run:
  "rendezvous q G P \<Longrightarrow> run ops q = (ps, q') \<Longrightarrow> rendezvous q' (G @ ps) (P @ puts ops)"
proof (induction ops q arbitrary: G P ps q' rule: run.induct)
  case (1 q)
  then show ?case by simp
next
  case (2 v ops q)
  from "2.IH" [OF rendezvous_put [OF "2.prems"(1)]] "2.prems"(2)
  show ?case by simp
next
  case (3 ops q)
  obtain p q1 where g: "get q = (p, q1)" by (cases "get q")
  obtain ps1 q2 where r: "run ops q1 = (ps1, q2)" by (cases "run ops q1")
  from "3.prems"(2) g r have eq: "ps = p # ps1" "q' = q2" by simp_all
  from "3.IH" [OF g [symmetric] rendezvous_get [OF "3.prems"(1) g] r]
  show ?case by (simp add: eq)
qed

lemma rendezvous_received:
  assumes "rendezvous q G P" "k < length G"
  shows "received q (G ! k) = (if k < length P then Some (P ! k) else None)"
proof (cases "k < length P")
  case True
  with assms show ?thesis by (simp add: rendezvous_def)
next
  case False
  with assms have le: "length P \<le> length G" by simp
  with assms have dr: "map Deferred (pend q) = drop (length P) G"
    and un: "\<forall>r \<in> set (pend q). resolved q r = None"
    by (auto simp: rendezvous_def)
  from False assms(2) have "G ! k = drop (length P) G ! (k - length P)" by simp
  also have "\<dots> = Deferred (pend q ! (k - length P))"
    using dr False assms(2) by (metis length_drop length_map nth_map diff_less_mono not_less)
  finally have Gk: "G ! k = Deferred (pend q ! (k - length P))" .
  have "k - length P < length (pend q)"
    using dr False assms(2) by (metis length_drop length_map diff_less_mono not_less)
  with un have "resolved q (pend q ! (k - length P)) = None" by simp
  with Gk False show ?thesis by (simp add: received_def)
qed

text \<open>
  C8 (as amended): the values the constructor was given count as the first values supplied.
  After any interleaved sequence of calls of \<open>put\<close> and \<open>get\<close> on a new queue, the promise
  returned by the k-th \<open>get\<close> (counted from 0 over the whole sequence) has received the k-th
  value of the initial values followed by the values of the calls of \<open>put\<close> in their order,
  and is still pending when fewer than k+1 values have been supplied. On a queue created
  without initial values this is the value of the k-th \<open>put\<close>.
\<close>

theorem fifo:
  assumes "run ops (AsyncQueue iterable) = (ps, q)"
    and "k < length ps"
  shows "avail (AsyncQueue iterable) = (case iterable of None \<Rightarrow> [] | Some vs \<Rightarrow> vs) \<and>
    received q (ps ! k) =
      (if k < length (avail (AsyncQueue iterable) @ puts ops)
       then Some ((avail (AsyncQueue iterable) @ puts ops) ! k) else None) \<and>
    (iterable = None \<or> iterable = Some [] \<longrightarrow>
       received q (ps ! k) = (if k < length (puts ops) then Some (puts ops ! k) else None))"
proof -
  have a: "avail (AsyncQueue iterable) = (case iterable of None \<Rightarrow> [] | Some vs \<Rightarrow> vs)"
    by (rule AsyncQueue_avail)
  from rendezvous_new [of iterable] have "rendezvous (AsyncQueue iterable) [] (avail (AsyncQueue iterable))"
    by (simp add: a)
  from rendezvous_run [OF this assms(1)]
  have "rendezvous q ps (avail (AsyncQueue iterable) @ puts ops)" by simp
  from rendezvous_received [OF this assms(2)]
  have r: "received q (ps ! k) =
      (if k < length (avail (AsyncQueue iterable) @ puts ops)
       then Some ((avail (AsyncQueue iterable) @ puts ops) ! k) else None)" .
  have "received q (ps ! k) = (if k < length (puts ops) then Some (puts ops ! k) else None)"
    if "iterable = None \<or> iterable = Some []"
    using that r a by auto
  with a r show ?thesis by blast
qed

theorem fifo_witness:
  "run [Get, Get, Get, Put (10::nat), Put 20, Get] (AsyncQueue (Some [1, 2])) =
     ([Settled 1, Settled 2, Deferred 0, Settled 20],
      \<lparr>available = Some [], pending = Some [], resolved = [0 \<mapsto> 10], created = 1\<rparr>) \<and>
   avail (AsyncQueue (Some [1, 2 :: nat])) = [1, 2] \<and>
   puts [Get, Get, Get, Put (10::nat), Put 20, Get] = [10, 20] \<and>
   received \<lparr>available = Some [], pending = Some [], resolved = [0 \<mapsto> (10::nat)], created = 1\<rparr>
     ([Settled 1, Settled 2, Deferred 0, Settled 20] ! 0) = Some 1 \<and>
   received \<lparr>available = Some [], pending = Some [], resolved = [0 \<mapsto> (10::nat)], created = 1\<rparr>
     ([Settled 1, Settled 2, Deferred 0, Settled 20] ! 2) = Some 10 \<and>
   received \<lparr>available = Some [], pending = Some [], resolved = [0 \<mapsto> (10::nat)], created = 1\<rparr>
     ([Settled 1, Settled 2, Deferred 0, Settled 20] ! 3) = Some 20 \<and>
   run [Get, Put (10::nat), Put 20, Get, Get] (AsyncQueue None) =
     ([Deferred 0, Settled 20, Deferred 1],
      \<lparr>available = Some [], pending = Some [1], resolved = [0 \<mapsto> 10], created = 2\<rparr>) \<and>
   received \<lparr>available = Some [], pending = Some [1], resolved = [0 \<mapsto> (10::nat)], created = 2\<rparr>
     ([Deferred 0, Settled 20, Deferred 1] ! 0) = Some 10 \<and>
   received \<lparr>available = Some [], pending = Some [1], resolved = [0 \<mapsto> (10::nat)], created = 2\<rparr>
     ([Deferred 0, Settled 20, Deferred 1] ! 1) = Some 20 \<and>
   received \<lparr>available = Some [], pending = Some [1], resolved = [0 \<mapsto> (10::nat)], created = 2\<rparr>
     ([Deferred 0, Settled 20, Deferred 1] ! 2) = None"
proof -
  have r: "run [Get, Get, Get, Put (10::nat), Put 20, Get] (AsyncQueue (Some [1, 2])) =
     ([Settled 1, Settled 2, Deferred 0, Settled 20],
      \<lparr>available = Some [], pending = Some [], resolved = [0 \<mapsto> 10], created = 1\<rparr>)"
    by (simp add: AsyncQueue_def get_def put_def resolve_def)
  have n: "run [Get, Put (10::nat), Put 20, Get, Get] (AsyncQueue None) =
     ([Deferred 0, Settled 20, Deferred 1],
      \<lparr>available = Some [], pending = Some [1], resolved = [0 \<mapsto> 10], created = 2\<rparr>)"
    by (simp add: AsyncQueue_def get_def put_def resolve_def)
  have p: "puts [Get, Get, Get, Put (10::nat), Put 20, Get] = [10, 20]"
    "puts [Get, Put (10::nat), Put 20, Get, Get] = [10, 20]" by simp_all
  from fifo [OF r, of 0] fifo [OF r, of 2] fifo [OF r, of 3]
    fifo [OF n, of 0] fifo [OF n, of 1] fifo [OF n, of 2] r n p
  show ?thesis
    by simp
qed

text \<open>
  C8 as stated fails on a queue created with an initial value: the first \<open>get\<close> is served the
  initial value 1, not the value 10 of the first \<open>put\<close>.
\<close>

theorem fifo_counterexample:
  "run [Put (10::nat), Get] (AsyncQueue (Some [1])) =
     ([Settled 1], \<lparr>available = Some [10], pending = None, resolved = Map.empty, created = 0\<rparr>) \<and>
   puts [Put (10::nat), Get] = [10] \<and>
   received \<lparr>available = Some [10 :: nat], pending = None, resolved = Map.empty, created = 0\<rparr>
     ([Settled 1] ! 0) = Some 1 \<and>
   received \<lparr>available = Some [10 :: nat], pending = None, resolved = Map.empty, created = 0\<rparr>
     ([Settled 1] ! 0) \<noteq> Some (puts [Put (10::nat), Get] ! 0)"
  by (simp add: AsyncQueue_def get_def put_def resolve_def received_def)

section \<open>Properties of ReaderWriterLock\<close>

subsection \<open>What settling and waking leave alone\<close>

lemma settle_fields [simp]:
  "readers (settle p r s) = readers s"
  "upgradeables (settle p r s) = upgradeables s"
  "upgrades (settle p r s) = upgrades s"
  "writers (settle p r s) = writers s"
  "upgradeable (settle p r s) = upgradeable s"
  "upgraded (settle p r s) = upgraded s"
  "count (settle p r s) = count s"
  "released (settle p r s) = released s"
  "cancelled (settle p r s) = cancelled s"
  "fresh (settle p r s) = fresh s"
  by (simp_all add: settle_def)

lemma settled_settle:
  "settled (settle p r s) = (if settled s p = None then (settled s)(p \<mapsto> r) else settled s)"
  by (simp add: settle_def)

lemmas take_defs = takeReadLock_def takeWriteLock_def takeUpgradeableReadLock_def takeUpgradeLock_def
lemmas can_defs = canTakeReadLock_def canTakeWriteLock_def canTakeUpgradeableReadLock_def canTakeUpgradeLock_def

lemmas run_defs = exec_def init_def read_def writeLock_def upgradeableRead_def upgrade_def hold_upgrade_def
  newPromise_def cancellationRequested_def settle_def can_defs take_defs
  wake_def processLockRequests_def processWriteLockRequest_def processUpgradeRequest_def
  processUpgradeableReadLockRequest_def processReadLockRequests_def
  releaseWriteLock_def releaseReadLock_def releaseUpgradeLock_def releaseUpgradeableReadLock_def
  cancelRequest_def cancelCallback_def deleteNode_def

lemma processLockRequests_cases:
  "processLockRequests s =
     (if canTakeWriteLock s \<and> writers s \<noteq> []
      then wake takeWriteLock (hd (writers s)) (s\<lparr>writers := tl (writers s)\<rparr>)
      else if canTakeUpgradeLock s \<and> upgrades s \<noteq> []
      then wake takeUpgradeLock (hd (upgrades s)) (s\<lparr>upgrades := tl (upgrades s)\<rparr>)
      else processReadLockRequests (processUpgradeableReadLockRequest s))"
  by (auto simp: processLockRequests_def processWriteLockRequest_def processUpgradeRequest_def
      split: list.splits)

lemma wake_queues [simp]:
  assumes "acquire = takeReadLock \<or> acquire = takeWriteLock \<or> acquire = takeUpgradeableReadLock
     \<or> acquire = takeUpgradeLock"
  shows "readers (wake acquire w s) = readers s"
    "upgradeables (wake acquire w s) = upgradeables s"
    "upgrades (wake acquire w s) = upgrades s"
    "writers (wake acquire w s) = writers s"
    "cancelled (wake acquire w s) = cancelled s"
  using assms by (auto simp: wake_def take_defs)

lemma fold_wake_read_queues [simp]:
  "readers (fold (wake takeReadLock) ws s) = readers s"
  "upgradeables (fold (wake takeReadLock) ws s) = upgradeables s"
  "upgrades (fold (wake takeReadLock) ws s) = upgrades s"
  "writers (fold (wake takeReadLock) ws s) = writers s"
  "cancelled (fold (wake takeReadLock) ws s) = cancelled s"
  by (induction ws arbitrary: s; simp)+

subsection \<open>Releasing the upgradeable handle\<close>

text \<open>
  C4: releasing the upgradeable handle sets \<open>count\<close> to 0 when it is -1 and otherwise
  decrements it, clears \<open>upgraded\<close> and \<open>upgradeable\<close>, and then reschedules; the handle's
  \<open>release\<close> does so exactly when the handle is the current upgradeable one.
\<close>

theorem releasing_upgradeable_handle:
  "releaseUpgradeableReadLock s =
     processLockRequests
       (s\<lparr>count := (if count s = - 1 then 0 else count s - 1),
          upgraded := None, upgradeable := None\<rparr>) \<and>
   release (UpgradeableLock h) s =
     (if upgradeable s = Some h then Inr (releaseUpgradeableReadLock s)
      else Inl LockAlreadyReleased)"
  by (simp add: releaseUpgradeableReadLock_def)

theorem releasing_upgradeable_handle_witness:
  "count (exec [UpgradeableRead None, Upgrade 1 None] init) = - 1 \<and>
   upgradeable (exec [UpgradeableRead None, Upgrade 1 None] init) = Some 1 \<and>
   upgraded (exec [UpgradeableRead None, Upgrade 1 None] init) = Some 3 \<and>
   release (UpgradeableLock 1) (exec [UpgradeableRead None, Upgrade 1 None] init) =
     Inr (processLockRequests ((exec [UpgradeableRead None, Upgrade 1 None] init)
       \<lparr>count := 0, upgraded := None, upgradeable := None\<rparr>)) \<and>
   count (releaseUpgradeableReadLock (exec [UpgradeableRead None, Upgrade 1 None] init)) = 0 \<and>
   count (exec [Read None, UpgradeableRead None] init) = 2 \<and>
   count (releaseUpgradeableReadLock (exec [Read None, UpgradeableRead None] init)) = 1"
proof -
  have a: "count (exec [UpgradeableRead None, Upgrade 1 None] init) = - 1"
    "upgradeable (exec [UpgradeableRead None, Upgrade 1 None] init) = Some 1"
    "upgraded (exec [UpgradeableRead None, Upgrade 1 None] init) = Some 3"
    "count (exec [Read None, UpgradeableRead None] init) = 2"
    by (simp_all add: run_defs)
  have b: "count (processLockRequests ((exec [UpgradeableRead None, Upgrade 1 None] init)
       \<lparr>count := 0, upgraded := None, upgradeable := None\<rparr>)) = 0"
    "count (processLockRequests ((exec [Read None, UpgradeableRead None] init)
       \<lparr>count := 1, upgraded := None, upgradeable := None\<rparr>)) = 1"
    by (simp_all add: run_defs)
  show ?thesis
    using a b releasing_upgradeable_handle [of "exec [UpgradeableRead None, Upgrade 1 None] init" 1]
      releasing_upgradeable_handle [of "exec [Read None, UpgradeableRead None] init" 1]
    by simp
qed

subsection \<open>What scheduling leaves alone\<close>

lemma extends_refl: "extends s s"
  by (simp add: extends_def)

lemma extends_trans:
  assumes a: "extends s s'" and b: "extends s' s''"
  shows "extends s s''"
proof -
  have f: "fresh s \<le> fresh s'" "fresh s' \<le> fresh s''"
    using a b by (simp_all add: extends_def)
  have r: "released s'' h = released s h" if "hid h < fresh s" for h
  proof -
    from that f have "hid h < fresh s'" by simp
    with b have "released s'' h = released s' h" by (simp add: extends_def)
    with a that show ?thesis by (simp add: extends_def)
  qed
  have t: "settled s'' p = Some x" if "settled s p = Some x" for p x
    using a b that by (simp add: extends_def)
  have c: "cancelled s'' = cancelled s"
    using a b by (simp add: extends_def)
  have u: "upgraded s'' = upgraded s \<or> (\<exists>g. upgraded s'' = Some g \<and> fresh s \<le> g)"
  proof -
    from b consider "upgraded s'' = upgraded s'" | g where "upgraded s'' = Some g" "fresh s' \<le> g"
      by (auto simp: extends_def)
    then show ?thesis
    proof cases
      case 1
      with a show ?thesis by (auto simp: extends_def)
    next
      case 2
      with f show ?thesis by auto
    qed
  qed
  have v: "released s h = Some True" if "released s'' h = Some True" for h
    using a b that by (simp add: extends_def)
  have m: "released s'' h \<noteq> None" if "released s h \<noteq> None" for h
    using a b that by (simp add: extends_def)
  have i: "settled s p = Some (Resolved h) \<or> issued (released s'') h"
    if "settled s'' p = Some (Resolved h)" for p h
  proof -
    have b8: "settled s' p = Some (Resolved h) \<or> issued (released s'') h"
      using b that unfolding extends_def by blast
    have a8: "settled s' p = Some (Resolved h) \<Longrightarrow>
        settled s p = Some (Resolved h) \<or> issued (released s') h"
      using a unfolding extends_def by blast
    have mono: "issued (released s') h \<Longrightarrow> issued (released s'') h"
      using b unfolding extends_def issued_def by (auto split: handle.splits)
    from b8 a8 mono show ?thesis by blast
  qed
  show ?thesis
    unfolding extends_def using f r t c u v m i by auto
qed

lemma extends_queue_update [simp]:
  "extends s (s'\<lparr>readers := x\<rparr>) = extends s s'"
  "extends s (s'\<lparr>upgradeables := x\<rparr>) = extends s s'"
  "extends s (s'\<lparr>upgrades := x\<rparr>) = extends s s'"
  "extends s (s'\<lparr>writers := x\<rparr>) = extends s s'"
  "extends (s\<lparr>readers := x\<rparr>) s' = extends s s'"
  "extends (s\<lparr>upgradeables := x\<rparr>) s' = extends s s'"
  "extends (s\<lparr>upgrades := x\<rparr>) s' = extends s s'"
  "extends (s\<lparr>writers := x\<rparr>) s' = extends s s'"
  by (simp_all add: extends_def)

lemma extends_settle:
  "extends s (settle p (Rejected e) s)"
  "issued (released s) h \<Longrightarrow> extends s (settle p (Resolved h) s)"
  by (simp_all add: extends_def settled_settle)

lemma take_issued:
  assumes "acquire = takeReadLock \<or> acquire = takeWriteLock \<or> acquire = takeUpgradeableReadLock
     \<or> acquire = takeUpgradeLock"
  shows "issued (released (snd (acquire s))) (fst (acquire s))"
  using assms by (auto simp: take_defs issued_def)

lemma extends_take:
  "extends s (snd (takeReadLock s))"
  "extends s (snd (takeWriteLock s))"
  "extends s (snd (takeUpgradeableReadLock s))"
  "extends s (snd (takeUpgradeLock s))"
  by (auto simp: extends_def take_defs)

lemma extends_wake:
  assumes "acquire = takeReadLock \<or> acquire = takeWriteLock \<or> acquire = takeUpgradeableReadLock
     \<or> acquire = takeUpgradeLock"
  shows "extends s (wake acquire w s)"
proof (cases "cancellationRequested s (snd w)")
  case True
  then show ?thesis by (simp add: wake_def extends_settle)
next
  case False
  obtain h s' where t: "acquire s = (h, s')" by (cases "acquire s")
  with assms have "extends s s'" using extends_take [of s] by auto
  moreover from t take_issued [OF assms, of s] have "issued (released s') h" by simp
  ultimately have "extends s (settle (fst w) (Resolved h) s')"
    by (blast intro: extends_trans extends_settle(2))
  with t False show ?thesis
    by (simp add: wake_def)
qed

lemma extends_fold_wake: "extends s (fold (wake takeReadLock) ws s)"
proof (induction ws arbitrary: s)
  case Nil
  show ?case by (simp add: extends_refl)
next
  case (Cons w ws)
  have "extends s (wake takeReadLock w s)" by (simp add: extends_wake)
  with Cons [of "wake takeReadLock w s"] show ?case
    by (auto intro: extends_trans)
qed

lemma extends_pop_wake:
  assumes "acquire = takeReadLock \<or> acquire = takeWriteLock \<or> acquire = takeUpgradeableReadLock
     \<or> acquire = takeUpgradeLock"
  shows "extends s (wake acquire w (s\<lparr>writers := x\<rparr>))"
    "extends s (wake acquire w (s\<lparr>upgrades := x\<rparr>))"
    "extends s (wake acquire w (s\<lparr>upgradeables := x\<rparr>))"
  using extends_wake [OF assms, of "s\<lparr>writers := x\<rparr>" w]
    extends_wake [OF assms, of "s\<lparr>upgrades := x\<rparr>" w]
    extends_wake [OF assms, of "s\<lparr>upgradeables := x\<rparr>" w]
  by simp_all

lemma extends_processWrite: "extends s (snd (processWriteLockRequest s))"
  by (simp add: processWriteLockRequest_def extends_refl extends_pop_wake split: list.splits)

lemma extends_processUpgrade: "extends s (snd (processUpgradeRequest s))"
  by (simp add: processUpgradeRequest_def extends_refl extends_pop_wake split: list.splits)

lemma extends_processUpgradeable: "extends s (processUpgradeableReadLockRequest s)"
  by (simp add: processUpgradeableReadLockRequest_def extends_refl extends_pop_wake
      split: list.splits)

lemma extends_processRead: "extends s (processReadLockRequests s)"
  by (simp add: processReadLockRequests_def extends_refl extends_fold_wake)

lemma extends_processLockRequests: "extends s (processLockRequests s)"
  unfolding processLockRequests_cases
  using extends_wake [of takeWriteLock "s\<lparr>writers := tl (writers s)\<rparr>" "hd (writers s)"]
    extends_wake [of takeUpgradeLock "s\<lparr>upgrades := tl (upgrades s)\<rparr>" "hd (upgrades s)"]
    extends_trans [OF extends_processUpgradeable extends_processRead, of s]
  by simp

lemma extends_newPromise:
  "extends s (s\<lparr>fresh := Suc (fresh s)\<rparr>)"
  by (simp add: extends_def)

lemma extends_request_aux:
  assumes "acquire = takeReadLock \<or> acquire = takeWriteLock \<or> acquire = takeUpgradeableReadLock
     \<or> acquire = takeUpgradeLock"
    and "acquire (s\<lparr>fresh := Suc (fresh s)\<rparr>) = (h, s')"
  shows "extends s (settle p (Resolved h) s')"
proof -
  have "extends (s\<lparr>fresh := Suc (fresh s)\<rparr>) (snd (acquire (s\<lparr>fresh := Suc (fresh s)\<rparr>)))"
    using assms(1) extends_take [of "s\<lparr>fresh := Suc (fresh s)\<rparr>"] by blast
  from extends_trans [OF extends_newPromise this] assms(2) have "extends s s'" by simp
  moreover from take_issued [OF assms(1), of "s\<lparr>fresh := Suc (fresh s)\<rparr>"] assms(2)
  have "issued (released s') h" by simp
  ultimately show ?thesis
    by (blast intro: extends_trans extends_settle(2))
qed

lemma extends_request:
  "extends s (snd (read tok s))"
  "extends s (snd (upgradeableRead tok s))"
  "extends s (snd (writeLock tok s))"
  "extends s (snd (upgrade tok s))"
proof -
  let ?s = "s\<lparr>fresh := Suc (fresh s)\<rparr>"
  have e': "extends s (settle p (Rejected e) ?s)" for p e
    by (rule extends_trans [OF extends_newPromise extends_settle(1)])
  show "extends s (snd (read tok s))"
    using extends_request_aux [of takeReadLock s] e' extends_newPromise [of s]
    by (auto simp: read_def newPromise_def split: prod.splits)
  show "extends s (snd (upgradeableRead tok s))"
    using extends_request_aux [of takeUpgradeableReadLock s] e' extends_newPromise [of s]
    by (auto simp: upgradeableRead_def newPromise_def split: prod.splits)
  show "extends s (snd (writeLock tok s))"
    using extends_request_aux [of takeWriteLock s] e' extends_newPromise [of s]
    by (auto simp: writeLock_def newPromise_def split: prod.splits)
  show "extends s (snd (upgrade tok s))"
    using extends_request_aux [of takeUpgradeLock s] e' extends_newPromise [of s]
    by (auto simp: upgrade_def newPromise_def split: prod.splits)
qed


subsection \<open>Well-formedness is invariant\<close>

lemma queued_settle [simp]: "queued (settle p r s) = queued s"
  by (simp add: queued_def)

lemma cancellationRequested_iff:
  "cancellationRequested s tok \<longleftrightarrow> (\<exists>t. tok = Some t \<and> t \<in> cancelled s)"
  by (simp add: cancellationRequested_def split: option.splits)

lemma cancellationRequested_settle [simp]:
  "cancellationRequested (settle p r s) tok = cancellationRequested s tok"
  by (simp add: cancellationRequested_iff)

lemma wellformed_settle:
  assumes "wellformed s" "p < fresh s" "p \<notin> fst ` set (queued s)"
  shows "wellformed (settle p r s)"
proof (cases "settled s p = None")
  case False
  then have "settle p r s = s" by (auto simp: settle_def)
  with assms(1) show ?thesis by simp
next
  case True
  have "settled (settle p r s) q = None" if "q \<in> fst ` set (queued s)" for q
    using that assms(1,3) True by (auto simp: settled_settle wellformed_def)
  then show ?thesis
    using assms(1,2) unfolding wellformed_def
    by (auto simp: settled_settle)
qed

lemma wellformed_take:
  assumes "wellformed s"
  shows "wellformed (snd (takeReadLock s))" "wellformed (snd (takeWriteLock s))"
    "wellformed (snd (takeUpgradeableReadLock s))" "wellformed (snd (takeUpgradeLock s))"
  using assms unfolding wellformed_def take_defs queued_def cancellationRequested_iff
  by (auto simp: less_Suc_eq)

lemma take_frame:
  assumes "acquire = takeReadLock \<or> acquire = takeWriteLock \<or> acquire = takeUpgradeableReadLock
     \<or> acquire = takeUpgradeLock"
  shows "queued (snd (acquire s)) = queued s" "fresh (snd (acquire s)) = Suc (fresh s)"
    "settled (snd (acquire s)) = settled s" "cancelled (snd (acquire s)) = cancelled s"
  using assms by (auto simp: take_defs queued_def)

lemma wellformed_wake:
  assumes "wellformed s" "fst w < fresh s" "fst w \<notin> fst ` set (queued s)"
    and acq: "acquire = takeReadLock \<or> acquire = takeWriteLock \<or> acquire = takeUpgradeableReadLock
     \<or> acquire = takeUpgradeLock"
  shows "wellformed (wake acquire w s)"
proof (cases "cancellationRequested s (snd w)")
  case True
  with assms show ?thesis by (simp add: wake_def wellformed_settle)
next
  case False
  have "wellformed (snd (acquire s))"
    using acq wellformed_take [OF assms(1)] by blast
  then have "wellformed (settle (fst w) r (snd (acquire s)))" for r
    using assms(2,3) by (intro wellformed_settle) (simp_all add: take_frame [OF acq])
  with False show ?thesis
    by (simp add: wake_def split: prod.splits) (metis snd_conv)
qed

lemma wake_frame:
  assumes "acquire = takeReadLock \<or> acquire = takeWriteLock \<or> acquire = takeUpgradeableReadLock
     \<or> acquire = takeUpgradeLock"
  shows "queued (wake acquire w s) = queued s" "fresh s \<le> fresh (wake acquire w s)"
  using assms by (auto simp: wake_def take_defs queued_def)

lemma wellformed_fold_wake:
  assumes "wellformed s" "\<forall>w \<in> set ws. fst w < fresh s \<and> fst w \<notin> fst ` set (queued s)"
  shows "wellformed (fold (wake takeReadLock) ws s)"
  using assms
proof (induction ws arbitrary: s)
  case Nil
  then show ?case by simp
next
  case (Cons w ws)
  have "wellformed (wake takeReadLock w s)"
    using Cons.prems by (intro wellformed_wake) simp_all
  moreover have "\<forall>v \<in> set ws. fst v < fresh (wake takeReadLock w s)
      \<and> fst v \<notin> fst ` set (queued (wake takeReadLock w s))"
    using Cons.prems(2) wake_frame [where acquire = takeReadLock and w = w and s = s] by auto
  ultimately show ?case
    using Cons.IH by simp
qed

lemma wake_readers_update:
  "wake takeReadLock w (s\<lparr>readers := x\<rparr>) = (wake takeReadLock w s)\<lparr>readers := x\<rparr>"
  by (auto simp: wake_def takeReadLock_def settle_def cancellationRequested_iff)

lemma fold_wake_readers_update:
  "fold (wake takeReadLock) ws (s\<lparr>readers := x\<rparr>) = (fold (wake takeReadLock) ws s)\<lparr>readers := x\<rparr>"
  by (induction ws arbitrary: s) (simp_all add: wake_readers_update)

lemma processReadLockRequests_alt:
  "processReadLockRequests s =
     (if canTakeReadLock s then fold (wake takeReadLock) (readers s) (s\<lparr>readers := []\<rparr>) else s)"
  by (simp add: processReadLockRequests_def fold_wake_readers_update)

lemma wellformed_pop:
  assumes "wellformed s"
  shows "writers s = w # ws \<Longrightarrow> wellformed (s\<lparr>writers := ws\<rparr>) \<and> fst w < fresh s
           \<and> fst w \<notin> fst ` set (queued (s\<lparr>writers := ws\<rparr>))"
    "upgrades s = w # ws \<Longrightarrow> wellformed (s\<lparr>upgrades := ws\<rparr>) \<and> fst w < fresh s
           \<and> fst w \<notin> fst ` set (queued (s\<lparr>upgrades := ws\<rparr>))"
    "upgradeables s = w # ws \<Longrightarrow> wellformed (s\<lparr>upgradeables := ws\<rparr>) \<and> fst w < fresh s
           \<and> fst w \<notin> fst ` set (queued (s\<lparr>upgradeables := ws\<rparr>))"
  using assms unfolding wellformed_def queued_def cancellationRequested_iff
  by auto

lemma wellformed_clear:
  assumes "wellformed s"
  shows "wellformed (s\<lparr>readers := []\<rparr>)"
    "\<forall>w \<in> set (readers s). fst w < fresh (s\<lparr>readers := []\<rparr>)
       \<and> fst w \<notin> fst ` set (queued (s\<lparr>readers := []\<rparr>))"
  using assms unfolding wellformed_def queued_def cancellationRequested_iff
  by auto


lemma wellformed_processWrite: "wellformed s \<Longrightarrow> wellformed (snd (processWriteLockRequest s))"
  using wellformed_pop(1) [of s]
  by (auto simp: processWriteLockRequest_def split: list.splits intro!: wellformed_wake)

lemma wellformed_processUpgrade: "wellformed s \<Longrightarrow> wellformed (snd (processUpgradeRequest s))"
  using wellformed_pop(2) [of s]
  by (auto simp: processUpgradeRequest_def split: list.splits intro!: wellformed_wake)

lemma wellformed_processUpgradeable:
  "wellformed s \<Longrightarrow> wellformed (processUpgradeableReadLockRequest s)"
  using wellformed_pop(3) [of s]
  by (auto simp: processUpgradeableReadLockRequest_def split: list.splits intro!: wellformed_wake)

lemma wellformed_processRead: "wellformed s \<Longrightarrow> wellformed (processReadLockRequests s)"
  using wellformed_clear [of s]
  by (auto simp: processReadLockRequests_alt intro!: wellformed_fold_wake)

lemma wellformed_processLockRequests:
  assumes "wellformed s"
  shows "wellformed (processLockRequests s)"
proof -
  have "wellformed (processReadLockRequests (processUpgradeableReadLockRequest s))"
    by (intro wellformed_processRead wellformed_processUpgradeable assms)
  then show ?thesis
    using wellformed_processWrite [OF assms] wellformed_processUpgrade [OF assms]
    by (auto simp: processLockRequests_def processWriteLockRequest_def processUpgradeRequest_def
        split: prod.splits bool.splits list.splits if_splits)
qed

lemma wellformed_updates:
  assumes "wellformed s"
  shows "wellformed (s\<lparr>count := c\<rparr>)"
    "wellformed (s\<lparr>upgraded := None\<rparr>)"
    "wellformed (s\<lparr>upgradeable := None\<rparr>)"
    "released s h \<noteq> None \<Longrightarrow> wellformed (s\<lparr>released := (released s)(h \<mapsto> b)\<rparr>)"
  using assms unfolding wellformed_def queued_def cancellationRequested_iff
  by auto

lemma wellformed_release:
  assumes "wellformed s" "release h s = Inr s'"
  shows "wellformed s'"
proof (cases h)
  case (ReadLock n)
  with assms(2) have r: "released s h = Some False"
    and s': "s' = processLockRequests (s\<lparr>released := (released s)(h \<mapsto> True), count := count s - 1\<rparr>)"
    by (auto simp: releaseReadLock_def split: if_splits)
  from r have "wellformed (s\<lparr>released := (released s)(h \<mapsto> True)\<rparr>)"
    by (intro wellformed_updates(4) assms(1)) simp
  from wellformed_updates(1) [OF this] show ?thesis
    unfolding s' by (intro wellformed_processLockRequests) simp
next
  case (WriteLock n)
  with assms(2) have r: "released s h = Some False"
    and s': "s' = processLockRequests (s\<lparr>released := (released s)(h \<mapsto> True), count := 0\<rparr>)"
    by (auto simp: releaseWriteLock_def split: if_splits)
  from r have "wellformed (s\<lparr>released := (released s)(h \<mapsto> True)\<rparr>)"
    by (intro wellformed_updates(4) assms(1)) simp
  from wellformed_updates(1) [OF this] show ?thesis
    unfolding s' by (intro wellformed_processLockRequests) simp
next
  case (UpgradeableLock n)
  with assms(2) have s': "s' = processLockRequests
      (s\<lparr>count := (if count s = - 1 then 0 else count s - 1), upgraded := None, upgradeable := None\<rparr>)"
    by (auto simp: releaseUpgradeableReadLock_def split: if_splits)
  have "wellformed (s\<lparr>count := c, upgraded := None, upgradeable := None\<rparr>)" for c
    by (intro wellformed_updates assms(1))
  then show ?thesis
    unfolding s' by (intro wellformed_processLockRequests)
next
  case (UpgradeLock n)
  with assms(2) have s': "s' = processLockRequests (s\<lparr>upgraded := None, count := 1\<rparr>)"
    by (auto simp: releaseUpgradeLock_def split: if_splits)
  have "wellformed (s\<lparr>upgraded := None, count := 1\<rparr>)"
    by (intro wellformed_updates assms(1))
  then show ?thesis
    unfolding s' by (intro wellformed_processLockRequests)
qed

lemma wellformed_newPromise:
  assumes "wellformed s"
  shows "wellformed (s\<lparr>fresh := Suc (fresh s)\<rparr>)"
    "fresh s \<notin> fst ` set (queued (s\<lparr>fresh := Suc (fresh s)\<rparr>))"
    "settled s (fresh s) = None"
proof -
  show "wellformed (s\<lparr>fresh := Suc (fresh s)\<rparr>)"
    using assms unfolding wellformed_def queued_def cancellationRequested_iff
    by (auto simp: less_Suc_eq)
  have "\<forall>w \<in> set (queued s). fst w < fresh s"
    using assms by (simp add: wellformed_def)
  then have "fresh s \<notin> fst ` set (queued s)" by auto
  then show "fresh s \<notin> fst ` set (queued (s\<lparr>fresh := Suc (fresh s)\<rparr>))"
    by (simp add: queued_def)
  have "\<forall>p. settled s p \<noteq> None \<longrightarrow> p < fresh s"
    using assms by (simp add: wellformed_def)
  then show "settled s (fresh s) = None" by (metis less_irrefl)
qed

lemma wellformed_push:
  assumes "wellformed s" "p < fresh s" "p \<notin> fst ` set (queued s)" "settled s p = None"
    "\<not> cancellationRequested s tok"
  shows "wellformed (s\<lparr>readers := readers s @ [(p, tok)]\<rparr>)"
    "wellformed (s\<lparr>upgradeables := upgradeables s @ [(p, tok)]\<rparr>)"
    "wellformed (s\<lparr>upgrades := upgrades s @ [(p, tok)]\<rparr>)"
    "wellformed (s\<lparr>writers := writers s @ [(p, tok)]\<rparr>)"
  using assms unfolding wellformed_def queued_def cancellationRequested_iff
  by auto

lemma wellformed_request_aux:
  assumes "wellformed s"
    and acq: "acquire = takeReadLock \<or> acquire = takeWriteLock \<or> acquire = takeUpgradeableReadLock
     \<or> acquire = takeUpgradeLock"
    and "acquire (s\<lparr>fresh := Suc (fresh s)\<rparr>) = (h, s')"
  shows "wellformed (settle (fresh s) r s')"
proof -
  let ?s = "s\<lparr>fresh := Suc (fresh s)\<rparr>"
  note n = wellformed_newPromise [OF assms(1)]
  have "wellformed (snd (acquire ?s))"
    using acq wellformed_take [OF n(1)] by blast
  then have "wellformed (settle (fresh s) r (snd (acquire ?s)))"
    using n(2) by (intro wellformed_settle) (simp_all add: take_frame [OF acq])
  with assms(3) show ?thesis by simp
qed

lemma wellformed_request:
  assumes "wellformed s"
  shows "wellformed (snd (read tok s))"
    "wellformed (snd (upgradeableRead tok s))"
    "wellformed (snd (writeLock tok s))"
    "wellformed (snd (upgrade tok s))"
proof -
  let ?s = "s\<lparr>fresh := Suc (fresh s)\<rparr>"
  note n = wellformed_newPromise [OF assms]
  have rej: "wellformed (settle (fresh s) r ?s)" for r
    using n by (intro wellformed_settle) simp_all
  have psh: "\<not> cancellationRequested ?s tok \<Longrightarrow>
      wellformed (?s\<lparr>readers := readers ?s @ [(fresh s, tok)]\<rparr>) \<and>
      wellformed (?s\<lparr>upgradeables := upgradeables ?s @ [(fresh s, tok)]\<rparr>) \<and>
      wellformed (?s\<lparr>upgrades := upgrades ?s @ [(fresh s, tok)]\<rparr>) \<and>
      wellformed (?s\<lparr>writers := writers ?s @ [(fresh s, tok)]\<rparr>)"
    using n by (intro conjI wellformed_push) simp_all
  show "wellformed (snd (read tok s))"
    using rej psh wellformed_request_aux [OF assms, of takeReadLock]
    by (auto simp: read_def newPromise_def split: prod.splits)
  show "wellformed (snd (upgradeableRead tok s))"
    using rej psh wellformed_request_aux [OF assms, of takeUpgradeableReadLock]
    by (auto simp: upgradeableRead_def newPromise_def split: prod.splits)
  show "wellformed (snd (writeLock tok s))"
    using rej psh wellformed_request_aux [OF assms, of takeWriteLock]
    by (auto simp: writeLock_def newPromise_def split: prod.splits)
  show "wellformed (snd (upgrade tok s))"
    using rej psh wellformed_request_aux [OF assms, of takeUpgradeLock]
    by (auto simp: upgrade_def newPromise_def split: prod.splits)
qed


lemma fold_settle_fields [simp]:
  "readers (fold (\<lambda>w. settle (fst w) r) ws s) = readers s"
  "upgradeables (fold (\<lambda>w. settle (fst w) r) ws s) = upgradeables s"
  "upgrades (fold (\<lambda>w. settle (fst w) r) ws s) = upgrades s"
  "writers (fold (\<lambda>w. settle (fst w) r) ws s) = writers s"
  "upgradeable (fold (\<lambda>w. settle (fst w) r) ws s) = upgradeable s"
  "upgraded (fold (\<lambda>w. settle (fst w) r) ws s) = upgraded s"
  "count (fold (\<lambda>w. settle (fst w) r) ws s) = count s"
  "released (fold (\<lambda>w. settle (fst w) r) ws s) = released s"
  "cancelled (fold (\<lambda>w. settle (fst w) r) ws s) = cancelled s"
  "fresh (fold (\<lambda>w. settle (fst w) r) ws s) = fresh s"
  by (induction ws arbitrary: s; simp)+

lemma settled_fold_settle:
  "settled (fold (\<lambda>w. settle (fst w) r) ws s) p =
     (if p \<in> fst ` set ws \<and> settled s p = None then Some r else settled s p)"
  by (induction ws arbitrary: s) (auto simp: settled_settle)

lemma cancelRequest_fields [simp]:
  "readers (cancelRequest t s) = readers s"
  "upgradeables (cancelRequest t s) = upgradeables s"
  "upgrades (cancelRequest t s) = upgrades s"
  "writers (cancelRequest t s) = writers s"
  "upgradeable (cancelRequest t s) = upgradeable s"
  "upgraded (cancelRequest t s) = upgraded s"
  "count (cancelRequest t s) = count s"
  "released (cancelRequest t s) = released s"
  "settled (cancelRequest t s) = settled s"
  "cancelled (cancelRequest t s) = insert t (cancelled s)"
  "fresh (cancelRequest t s) = fresh s"
  by (simp_all add: cancelRequest_def)

lemma deleteNode_absent: "w \<notin> set ws \<Longrightarrow> deleteNode w ws = ws"
  by (simp add: deleteNode_def filter_id_conv) blast

lemma cancelCallback_fields [simp]:
  "readers (cancelCallback w s) = deleteNode w (readers s)"
  "upgradeables (cancelCallback w s) = deleteNode w (upgradeables s)"
  "upgrades (cancelCallback w s) = deleteNode w (upgrades s)"
  "writers (cancelCallback w s) = deleteNode w (writers s)"
  "upgradeable (cancelCallback w s) = upgradeable s"
  "upgraded (cancelCallback w s) = upgraded s"
  "count (cancelCallback w s) = count s"
  "released (cancelCallback w s) = released s"
  "cancelled (cancelCallback w s) = cancelled s"
  "fresh (cancelCallback w s) = fresh s"
  by (simp_all add: cancelCallback_def deleteNode_absent)

lemma settled_cancelCallback:
  "settled (cancelCallback w s) p =
     (if p = fst w \<and> w \<in> set (queued s) \<and> settled s p = None
      then Some (Rejected CancelError) else settled s p)"
  by (auto simp: cancelCallback_def queued_def settled_settle)

lemma queued_cancelRequest [simp]: "queued (cancelRequest t s) = queued s"
  by (simp add: queued_def)

lemma queued_cancelCallback: "queued (cancelCallback w s) = deleteNode w (queued s)"
  by (simp add: queued_def deleteNode_def)

lemma distinct_fst_eq:
  "distinct (map fst xs) \<Longrightarrow> w \<in> set xs \<Longrightarrow> w' \<in> set xs \<Longrightarrow> fst w = fst w' \<Longrightarrow> w = w'"
  by (metis distinct_map inj_onD)

lemma wellformed_cancelRequest: "wellformed s \<Longrightarrow> wellformed (cancelRequest t s)"
  by (simp add: wellformed_def)

lemma wellformed_cancelCallback:
  assumes "wellformed s"
  shows "wellformed (cancelCallback w s)"
proof -
  from assms have b: "\<forall>h. released s h \<noteq> None \<longrightarrow> hid h < fresh s"
    "\<forall>p. settled s p \<noteq> None \<longrightarrow> p < fresh s"
    "\<forall>h. upgradeable s = Some h \<longrightarrow> h < fresh s"
    "\<forall>g. upgraded s = Some g \<longrightarrow> g < fresh s"
    and q: "\<forall>w \<in> set (queued s). fst w < fresh s \<and> settled s (fst w) = None"
    and d: "distinct (map fst (queued s))"
    by (simp_all add: wellformed_def)
  have 1: "\<forall>p. settled (cancelCallback w s) p \<noteq> None \<longrightarrow> p < fresh (cancelCallback w s)"
    using b(2) q by (auto simp: settled_cancelCallback)
  have 2: "fst v < fresh (cancelCallback w s) \<and> settled (cancelCallback w s) (fst v) = None"
    if "v \<in> set (queued (cancelCallback w s))" for v
  proof -
    from that have v: "v \<in> set (queued s)" "v \<noteq> w"
      by (simp_all add: queued_cancelCallback deleteNode_def)
    have "\<not> (fst v = fst w \<and> w \<in> set (queued s))"
      using distinct_fst_eq [OF d v(1)] v(2) by blast
    with q v(1) show ?thesis
      by (auto simp: settled_cancelCallback)
  qed
  have 3: "distinct (map fst (queued (cancelCallback w s)))"
    using d by (simp add: queued_cancelCallback deleteNode_def distinct_map_filter)
  show ?thesis
    unfolding wellformed_def using b 1 2 3 by simp
qed

lemma wellformed_step: "wellformed s \<Longrightarrow> wellformed (step e s)"
proof (cases e)
  case (Release h)
  assume "wellformed s"
  then show ?thesis
    using Release wellformed_release [of s h] by (cases "release h s") auto
qed (auto simp: wellformed_request wellformed_cancelRequest wellformed_cancelCallback
    hold_upgrade_def case_prod_unfold)

lemma wellformed_init: "wellformed init"
  by (simp add: wellformed_def init_def queued_def)

lemma reachable_wellformed: "reachable s \<Longrightarrow> wellformed s"
  by (induction rule: reachable.induct) (simp_all add: wellformed_init wellformed_step)

subsection \<open>The census is invariant\<close>

lemma live_update [simp]:
  "live ReadLock (m(ReadLock n \<mapsto> False)) = insert n (live ReadLock m)"
  "live ReadLock (m(ReadLock n \<mapsto> True)) = live ReadLock m - {n}"
  "live ReadLock (m(WriteLock n \<mapsto> b)) = live ReadLock m"
  "live WriteLock (m(WriteLock n \<mapsto> False)) = insert n (live WriteLock m)"
  "live WriteLock (m(WriteLock n \<mapsto> True)) = live WriteLock m - {n}"
  "live WriteLock (m(ReadLock n \<mapsto> b)) = live WriteLock m"
  by (auto simp: live_def)

lemma census_cong:
  assumes "released s' = released s" "fresh s' = fresh s" "upgradeable s' = upgradeable s"
    "upgraded s' = upgraded s" "count s' = count s"
  shows "census s' = census s"
  by (simp add: census_def assms cong: option.case_cong)

lemma census_settle [simp]: "census (settle p r s) = census s"
  by (rule census_cong) simp_all

lemma census_queue_update [simp]:
  "census (s\<lparr>readers := x\<rparr>) = census s"
  "census (s\<lparr>upgradeables := x\<rparr>) = census s"
  "census (s\<lparr>upgrades := x\<rparr>) = census s"
  "census (s\<lparr>writers := x\<rparr>) = census s"
  by (rule census_cong; simp)+

lemma census_cancel [simp]:
  "census (cancelRequest t s) = census s"
  "census (cancelCallback w s) = census s"
  by (rule census_cong; simp)+

lemma census_newPromise: "census s \<Longrightarrow> census (s\<lparr>fresh := Suc (fresh s)\<rparr>)"
  by (auto simp: census_def less_Suc_eq split: option.splits)

lemma census_fresh_dead:
  assumes "census s"
  shows "fresh s \<notin> live ReadLock (released s)" "fresh s \<notin> live WriteLock (released s)"
proof -
  from assms have "\<forall>h. released s h \<noteq> None \<longrightarrow> hid h < fresh s"
    by (simp add: census_def)
  then have "released s (ReadLock (fresh s)) = None" "released s (WriteLock (fresh s)) = None"
    by (metis hid.simps(1) less_irrefl, metis hid.simps(2) less_irrefl)
  then show "fresh s \<notin> live ReadLock (released s)" "fresh s \<notin> live WriteLock (released s)"
    by (simp_all add: live_def)
qed

lemma census_takeReadLock:
  assumes "census s" "0 \<le> count s"
  shows "census (snd (takeReadLock s))"
  using assms census_fresh_dead [OF assms(1)]
  by (auto simp: census_def takeReadLock_def less_Suc_eq split: option.splits)

lemma census_takeWriteLock:
  assumes "census s" "count s = 0"
  shows "census (snd (takeWriteLock s))"
  using assms census_fresh_dead [OF assms(1)]
  by (auto simp: census_def takeWriteLock_def less_Suc_eq split: option.splits)

lemma census_takeUpgradeableReadLock:
  assumes "census s" "0 \<le> count s" "upgradeable s = None"
  shows "census (snd (takeUpgradeableReadLock s))"
  using assms
  by (auto simp: census_def takeUpgradeableReadLock_def less_Suc_eq split: option.splits)

lemma census_takeUpgradeLock:
  assumes "census s" "count s = 1" "upgradeable s \<noteq> None" "upgraded s = None"
  shows "census (snd (takeUpgradeLock s))"
  using assms
  by (auto simp: census_def takeUpgradeLock_def less_Suc_eq split: option.splits)


lemma census_wake:
  assumes "census s"
  shows "0 \<le> count s \<Longrightarrow> census (wake takeReadLock w s)"
    "count s = 0 \<Longrightarrow> census (wake takeWriteLock w s)"
    "0 \<le> count s \<Longrightarrow> upgradeable s = None \<Longrightarrow> census (wake takeUpgradeableReadLock w s)"
    "count s = 1 \<Longrightarrow> upgradeable s \<noteq> None \<Longrightarrow> upgraded s = None
       \<Longrightarrow> census (wake takeUpgradeLock w s)"
  using assms census_takeReadLock [of s] census_takeWriteLock [of s]
    census_takeUpgradeableReadLock [of s] census_takeUpgradeLock [of s]
  by (auto simp: wake_def split: prod.splits)

lemma count_wake_read: "0 \<le> count s \<Longrightarrow> 0 \<le> count (wake takeReadLock w s)"
  by (simp add: wake_def takeReadLock_def)

lemma census_fold_wake:
  "census s \<Longrightarrow> 0 \<le> count s \<Longrightarrow> census (fold (wake takeReadLock) ws s)"
  by (induction ws arbitrary: s) (simp_all add: census_wake(1) count_wake_read)

lemma census_processWrite: "census s \<Longrightarrow> census (snd (processWriteLockRequest s))"
  using census_wake(2) [of "s\<lparr>writers := tl (writers s)\<rparr>"]
  by (auto simp: processWriteLockRequest_def canTakeWriteLock_def split: list.splits)

lemma census_processUpgrade: "census s \<Longrightarrow> census (snd (processUpgradeRequest s))"
  using census_wake(4) [of "s\<lparr>upgrades := tl (upgrades s)\<rparr>"]
  by (auto simp: processUpgradeRequest_def canTakeUpgradeLock_def split: list.splits)

lemma census_processUpgradeable: "census s \<Longrightarrow> census (processUpgradeableReadLockRequest s)"
  using census_wake(3) [of "s\<lparr>upgradeables := tl (upgradeables s)\<rparr>"]
  by (auto simp: processUpgradeableReadLockRequest_def canTakeUpgradeableReadLock_def
      split: list.splits)

lemma census_processRead: "census s \<Longrightarrow> census (processReadLockRequests s)"
  by (simp add: processReadLockRequests_def canTakeReadLock_def census_fold_wake)

lemma census_processLockRequests:
  assumes "census s"
  shows "census (processLockRequests s)"
proof -
  have "census (processReadLockRequests (processUpgradeableReadLockRequest s))"
    by (intro census_processRead census_processUpgradeable assms)
  moreover have "census (wake takeWriteLock (hd (writers s)) (s\<lparr>writers := tl (writers s)\<rparr>))"
    if "canTakeWriteLock s"
    using that assms by (intro census_wake(2)) (simp_all add: canTakeWriteLock_def)
  moreover have "census (wake takeUpgradeLock (hd (upgrades s)) (s\<lparr>upgrades := tl (upgrades s)\<rparr>))"
    if "canTakeUpgradeLock s"
    using that assms by (intro census_wake(4)) (simp_all add: canTakeUpgradeLock_def)
  ultimately show ?thesis
    by (simp add: processLockRequests_cases)
qed

lemma census_release_read:
  assumes "census s" "released s (ReadLock n) = Some False"
  shows "census (s\<lparr>released := (released s)(ReadLock n \<mapsto> True), count := count s - 1\<rparr>)"
proof -
  from assms(2) have n: "n \<in> live ReadLock (released s)" by (simp add: live_def)
  from assms(1) have f: "finite (live ReadLock (released s))" by (simp add: census_def)
  from n f have c: "int (card (live ReadLock (released s) - {n}))
      = int (card (live ReadLock (released s))) - 1"
  proof -
    from n f have "1 \<le> card (live ReadLock (released s))"
      by (metis card_gt_0_iff empty_iff Suc_leI One_nat_def)
    moreover have "card (live ReadLock (released s) - {n}) = card (live ReadLock (released s)) - 1"
      using n by simp
    ultimately show ?thesis by (simp add: of_nat_diff)
  qed
  from assms have b: "n < fresh s"
    by (auto simp: census_def dest!: spec [where x = "ReadLock n"])
  show ?thesis
    using assms(1) n c b
    by (auto simp: census_def split: option.splits)
qed

lemma census_release_write:
  assumes "census s" "released s (WriteLock n) = Some False"
  shows "census (s\<lparr>released := (released s)(WriteLock n \<mapsto> True), count := 0\<rparr>)"
proof -
  from assms(2) have n: "n \<in> live WriteLock (released s)" by (simp add: live_def)
  have "live WriteLock (released s) = {n}" if "card (live WriteLock (released s)) = 1"
    using that n by (metis card_1_singletonE singletonD)
  moreover from assms have b: "n < fresh s"
    by (auto simp: census_def dest!: spec [where x = "WriteLock n"])
  ultimately show ?thesis
    using assms(1) n
    by (auto simp: census_def split: option.splits)
qed

lemma census_release_upgradeable:
  assumes "census s" "upgradeable s = Some h"
  shows "census (s\<lparr>count := (if count s = - 1 then 0 else count s - 1),
                  upgraded := None, upgradeable := None\<rparr>)"
  using assms
  by (auto simp: census_def split: option.splits)

lemma census_release_upgrade:
  assumes "census s" "upgraded s = Some g"
  shows "census (s\<lparr>upgraded := None, count := 1\<rparr>)"
  using assms
  by (auto simp: census_def split: option.splits)

lemma census_release:
  assumes "census s" "release h s = Inr s'"
  shows "census s'"
proof (cases h)
  case (ReadLock n)
  with assms(2) census_release_read [OF assms(1), of n] show ?thesis
    by (auto simp: releaseReadLock_def split: if_splits intro!: census_processLockRequests)
next
  case (WriteLock n)
  with assms(2) census_release_write [OF assms(1), of n] show ?thesis
    by (auto simp: releaseWriteLock_def split: if_splits intro!: census_processLockRequests)
next
  case (UpgradeableLock n)
  with assms(2) census_release_upgradeable [OF assms(1), of n] show ?thesis
    by (auto simp: releaseUpgradeableReadLock_def split: if_splits
        intro!: census_processLockRequests)
next
  case (UpgradeLock n)
  with assms(2) census_release_upgrade [OF assms(1), of n] show ?thesis
    by (auto simp: releaseUpgradeLock_def split: if_splits intro!: census_processLockRequests)
qed

lemma census_request:
  assumes "census s"
  shows "census (snd (read tok s))"
    "census (snd (upgradeableRead tok s))"
    "census (snd (writeLock tok s))"
    "census (snd (upgrade tok s))"
proof -
  let ?s = "s\<lparr>fresh := Suc (fresh s)\<rparr>"
  note n = census_newPromise [OF assms]
  show "census (snd (read tok s))"
    using n census_takeReadLock [of ?s]
    by (auto simp: read_def newPromise_def canTakeReadLock_def split: prod.splits)
  show "census (snd (upgradeableRead tok s))"
    using n census_takeUpgradeableReadLock [of ?s]
    by (auto simp: upgradeableRead_def newPromise_def canTakeUpgradeableReadLock_def
        split: prod.splits)
  show "census (snd (writeLock tok s))"
    using n census_takeWriteLock [of ?s]
    by (auto simp: writeLock_def newPromise_def canTakeWriteLock_def split: prod.splits)
  show "census (snd (upgrade tok s))"
    using n census_takeUpgradeLock [of ?s]
    by (auto simp: upgrade_def newPromise_def canTakeUpgradeLock_def split: prod.splits)
qed

lemma census_step: "census s \<Longrightarrow> census (step e s)"
proof (cases e)
  case (Release h)
  assume "census s"
  then show ?thesis
    using Release census_release [of s h] by (cases "release h s") auto
qed (auto simp: census_request hold_upgrade_def case_prod_unfold)

lemma census_init: "census init"
  by (simp add: census_def init_def live_def)

lemma reachable_census: "reachable s \<Longrightarrow> census s"
  by (induction rule: reachable.induct) (simp_all add: census_init census_step)

lemma exec_simps [simp]:
  "exec [] s = s"
  "exec (e # evs) s = exec evs (step e s)"
  "exec (evs @ evs') s = exec evs' (exec evs s)"
  by (simp_all add: exec_def)

lemma reachable_exec: "reachable s \<Longrightarrow> reachable (exec evs s)"
  by (induction evs arbitrary: s) (simp_all add: reachable_step)

subsection \<open>The upgraded writer\<close>

lemma boundary_census: "boundary s \<Longrightarrow> census s"
proof (induction rule: boundary.induct)
  case (boundary_call s)
  then show ?case by (rule reachable_census)
next
  case (boundary_releaseRead s n)
  then show ?case by (intro census_release_read reachable_census)
next
  case (boundary_releaseWrite s n)
  then show ?case by (intro census_release_write reachable_census)
next
  case (boundary_releaseUpgradeable s h)
  then show ?case by (intro census_release_upgradeable reachable_census)
next
  case (boundary_releaseUpgrade s g)
  then show ?case by (intro census_release_upgrade reachable_census)
qed (simp_all add: census_processWrite census_processUpgrade census_processUpgradeable
    census_processRead)

lemma census_upgraded:
  "census s \<Longrightarrow> upgraded s \<noteq> None \<Longrightarrow> upgradeable s \<noteq> None \<and> count s = - 1"
  by (auto simp: census_def split: option.splits)

text \<open>
  C3: in every state at the boundary of an acquire, release, upgrade, cancellation or
  scheduling operation, if \<open>upgraded\<close> is present then \<open>upgradeable\<close> is present and
  \<open>count\<close> is -1.
\<close>

theorem upgraded_invariant:
  assumes "boundary s" "upgraded s \<noteq> None"
  shows "upgradeable s \<noteq> None \<and> count s = - 1"
  using census_upgraded [OF boundary_census [OF assms(1)] assms(2)] .

theorem upgraded_invariant_witness:
  "boundary (exec [UpgradeableRead None, Upgrade 1 None] init) \<and>
   upgraded (exec [UpgradeableRead None, Upgrade 1 None] init) = Some 3 \<and>
   upgradeable (exec [UpgradeableRead None, Upgrade 1 None] init) = Some 1 \<and>
   count (exec [UpgradeableRead None, Upgrade 1 None] init) = - 1"
proof -
  have b: "boundary (exec [UpgradeableRead None, Upgrade 1 None] init)"
    by (intro boundary_call reachable_exec reachable_init)
  have u: "upgraded (exec [UpgradeableRead None, Upgrade 1 None] init) = Some 3"
    "upgradeable (exec [UpgradeableRead None, Upgrade 1 None] init) = Some 1"
    by (simp_all add: run_defs)
  from upgraded_invariant [OF b] u b show ?thesis by simp
qed

subsection \<open>A handle is released once\<close>

lemma release_cases:
  assumes "release h s = Inr s'"
  obtains s0 where "s' = processLockRequests s0" "fresh s0 = fresh s" "settled s0 = settled s"
    "cancelled s0 = cancelled s" "queued s0 = queued s"
    "released s0 = released s \<or> released s0 = (released s)(h \<mapsto> True)"
    "upgraded s0 = upgraded s \<or> upgraded s0 = None"
    "writers s0 = writers s" "wellformed s \<longrightarrow> wellformed s0"
proof (cases h)
  case (ReadLock n)
  with assms that [of "s\<lparr>released := (released s)(h \<mapsto> True), count := count s - 1\<rparr>"]
  show ?thesis by (auto simp: releaseReadLock_def queued_def wellformed_updates split: if_splits)
next
  case (WriteLock n)
  with assms that [of "s\<lparr>released := (released s)(h \<mapsto> True), count := 0\<rparr>"]
  show ?thesis by (auto simp: releaseWriteLock_def queued_def wellformed_updates split: if_splits)
next
  case (UpgradeableLock n)
  with assms that [of "s\<lparr>count := (if count s = - 1 then 0 else count s - 1),
      upgraded := None, upgradeable := None\<rparr>"]
  show ?thesis by (auto simp: releaseUpgradeableReadLock_def queued_def wellformed_updates split: if_splits)
next
  case (UpgradeLock n)
  with assms that [of "s\<lparr>upgraded := None, count := 1\<rparr>"]
  show ?thesis by (auto simp: releaseUpgradeLock_def queued_def wellformed_updates split: if_splits)
qed

lemma step_cases:
  obtains (same) "step e s = s"
  | (request) "extends s (step e s)"
  | (release) h s0 where "e = Release h" "release h s = Inr (step e s)"
      "step e s = processLockRequests s0" "fresh s0 = fresh s" "settled s0 = settled s"
      "cancelled s0 = cancelled s" "queued s0 = queued s"
      "released s0 = released s \<or> released s0 = (released s)(h \<mapsto> True)"
      "upgraded s0 = upgraded s \<or> upgraded s0 = None"
      "writers s0 = writers s" "wellformed s \<longrightarrow> wellformed s0"
  | (cancel) "fresh (step e s) = fresh s" "released (step e s) = released s"
      "upgraded (step e s) = upgraded s"
      "\<forall>p x. settled (step e s) p = Some x \<longrightarrow> settled s p = Some x \<or> x = Rejected CancelError"
proof (cases e)
  case (Release h)
  show ?thesis
  proof (cases "release h s")
    case (Inl err)
    with Release same show ?thesis by simp
  next
    case (Inr s')
    from release_cases [OF Inr] Inr Release release [of h] show ?thesis
      by (metis step.simps(5) sum.simps(6))
  qed
next
  case (Upgrade h tok)
  then show ?thesis
    using same request extends_request(4) [of s tok]
    by (cases "upgradeable s = Some h") (simp_all add: hold_upgrade_def case_prod_unfold)
next
  case (Cancel t)
  with cancel show ?thesis by simp
next
  case (Callback w)
  with cancel show ?thesis by (simp add: settled_cancelCallback)
qed (use request extends_request in simp_all)

lemma extends_keeps_released:
  assumes "extends s s'" "released s h = Some True" "hid h < fresh s"
  shows "released s' h = Some True \<and> hid h < fresh s'"
  using assms by (auto simp: extends_def)

lemma step_keeps_released:
  assumes "released s h = Some True" "hid h < fresh s"
  shows "released (step e s) h = Some True \<and> hid h < fresh (step e s)"
proof (cases e s rule: step_cases)
  case same
  with assms show ?thesis by simp
next
  case request
  from extends_keeps_released [OF this assms] show ?thesis .
next
  case (release h' s0)
  from release(4,8) assms have "released s0 h = Some True" "hid h < fresh s0" by auto
  from extends_keeps_released [OF extends_processLockRequests this] release(3)
  show ?thesis by simp
next
  case cancel
  with assms show ?thesis by simp
qed

lemma exec_keeps_released:
  "released s h = Some True \<Longrightarrow> hid h < fresh s \<Longrightarrow> released (exec evs s) h = Some True"
  by (induction evs arbitrary: s) (simp_all add: step_keeps_released)

lemma step_released_origin:
  assumes "released (step e s) h = Some True"
  shows "released s h = Some True \<or> e = Release h"
proof (cases e s rule: step_cases)
  case same
  with assms show ?thesis by simp
next
  case request
  with assms show ?thesis by (simp add: extends_def)
next
  case (release h' s0)
  from extends_processLockRequests [of s0] assms release(3)
  have "released s0 h = Some True" by (simp add: extends_def)
  with release(1,8) show ?thesis by (auto split: if_splits)
next
  case cancel
  with assms show ?thesis by simp
qed

lemma exec_released_origin:
  "released (exec evs s) h = Some True \<Longrightarrow> released s h = Some True \<or> Release h \<in> set evs"
proof (induction evs arbitrary: s)
  case Nil
  then show ?case by simp
next
  case (Cons e evs)
  from Cons.IH [of "step e s"] Cons.prems step_released_origin [of e s h]
  show ?case by auto
qed


lemma issued_mono:
  "issued m h \<Longrightarrow> (\<forall>h. m h \<noteq> None \<longrightarrow> m' h \<noteq> None) \<Longrightarrow> issued m' h"
  by (auto simp: issued_def split: handle.splits)

lemma granted_extends:
  assumes "granted s" "extends s s'"
  shows "granted s'"
proof -
  have mono: "\<forall>h. released s h \<noteq> None \<longrightarrow> released s' h \<noteq> None"
    using assms(2) unfolding extends_def by blast
  have "issued (released s') h" if "settled s' p = Some (Resolved h)" for p h
  proof -
    from assms(2) that consider "settled s p = Some (Resolved h)" | "issued (released s') h"
      unfolding extends_def by blast
    then show ?thesis
    proof cases
      case 1
      with assms(1) have "issued (released s) h" by (auto simp: granted_def)
      from issued_mono [OF this mono] show ?thesis .
    qed
  qed
  then show ?thesis by (auto simp: granted_def)
qed

lemma granted_step:
  assumes "granted s"
  shows "granted (step e s)"
proof (cases e s rule: step_cases)
  case same
  with assms show ?thesis by simp
next
  case request
  with assms show ?thesis by (rule granted_extends)
next
  case (release h s0)
  from release(8) have mono: "\<forall>h. released s h \<noteq> None \<longrightarrow> released s0 h \<noteq> None"
    by auto
  have "issued (released s0) h'" if "settled s0 p = Some (Resolved h')" for p h'
  proof -
    from that release(5) assms have "issued (released s) h'" by (simp add: granted_def)
    from issued_mono [OF this mono] show ?thesis .
  qed
  then have "granted s0" by (auto simp: granted_def)
  from granted_extends [OF this extends_processLockRequests] release(3)
  show ?thesis by simp
next
  case cancel
  have "settled s p = Some (Resolved h)" if "settled (step e s) p = Some (Resolved h)" for p h
    using that cancel(4) by blast
  with assms cancel(2) show ?thesis
    by (auto simp: granted_def)
qed

lemma granted_init: "granted init"
  by (simp add: granted_def init_def)

lemma reachable_granted: "reachable s \<Longrightarrow> granted s"
  by (induction rule: reachable.induct) (simp_all add: granted_step granted_init)

lemma release_read_write:
  assumes "h = ReadLock n \<or> h = WriteLock n" "released s h = Some False"
  obtains s0 where "release h s = Inr (processLockRequests s0)" "fresh s0 = fresh s"
    "released s0 h = Some True"
proof -
  from assms consider "h = ReadLock n" | "h = WriteLock n" by blast
  then show ?thesis
  proof cases
    case 1
    with assms(2) that [of "s\<lparr>released := (released s)(h \<mapsto> True), count := count s - 1\<rparr>"]
    show ?thesis by (simp add: releaseReadLock_def)
  next
    case 2
    with assms(2) that [of "s\<lparr>released := (released s)(h \<mapsto> True), count := 0\<rparr>"]
    show ?thesis by (simp add: releaseWriteLock_def)
  qed
qed

lemma release_released:
  assumes "h = ReadLock n \<or> h = WriteLock n" "released s h = Some True"
  shows "release h s = Inl LockAlreadyReleased"
  using assms by auto

text \<open>
  C6: when a promise has been resolved with a read or write handle and \<open>release\<close> has not
  been called on the handle yet, the call of \<open>release\<close> succeeds, and after it, whatever
  happens next, every call of \<open>release\<close> on the handle raises "Lock already released".
\<close>

theorem release_once:
  assumes "settled (exec evs init) p = Some (Resolved h)"
    and "h = ReadLock n \<or> h = WriteLock n"
    and "Release h \<notin> set evs"
  shows "\<exists>s1. release h (exec evs init) = Inr s1 \<and>
           (\<forall>evs'. release h (exec evs' s1) = Inl LockAlreadyReleased)"
proof -
  let ?s = "exec evs init"
  have r: "reachable ?s" by (intro reachable_exec reachable_init)
  from reachable_granted [OF r] assms(1) have "issued (released ?s) h"
    by (auto simp: granted_def)
  with assms(2) have "released ?s h \<noteq> None" by (auto simp: issued_def)
  moreover have "released ?s h \<noteq> Some True"
    using exec_released_origin [of evs init h] assms(3) by (auto simp: init_def)
  ultimately have f: "released ?s h = Some False" by auto
  with reachable_wellformed [OF r] have b: "hid h < fresh ?s"
    by (auto simp: wellformed_def)
  from release_read_write [OF assms(2) f] obtain s0
    where s0: "release h ?s = Inr (processLockRequests s0)" "fresh s0 = fresh ?s"
      "released s0 h = Some True"
    by blast
  from b s0(2) have "hid h < fresh s0" by simp
  from extends_keeps_released [OF extends_processLockRequests s0(3) this]
  have k: "released (processLockRequests s0) h = Some True"
    "hid h < fresh (processLockRequests s0)"
    by simp_all
  have "release h (exec evs' (processLockRequests s0)) = Inl LockAlreadyReleased" for evs'
    by (rule release_released [OF assms(2) exec_keeps_released [OF k]])
  with s0(1) show ?thesis by blast
qed

theorem release_once_witness:
  "settled (exec [Write None] init) 0 = Some (Resolved (WriteLock 1)) \<and>
   release (WriteLock 1) (exec [Write None] init) =
     Inr (exec [Write None, Release (WriteLock 1)] init) \<and>
   release (WriteLock 1) (exec [] (exec [Write None, Release (WriteLock 1)] init))
     = Inl LockAlreadyReleased \<and>
   release (WriteLock 1) (exec [Read None] (exec [Write None, Release (WriteLock 1)] init))
     = Inl LockAlreadyReleased"
proof -
  have a: "settled (exec [Write None] init) 0 = Some (Resolved (WriteLock 1))"
    by (simp add: run_defs)
  have b: "release (WriteLock 1) (exec [Write None] init) =
     Inr (exec [Write None, Release (WriteLock 1)] init)"
    by (simp add: run_defs)
  have h1: "WriteLock 1 = ReadLock 1 \<or> WriteLock 1 = WriteLock 1" by simp
  have h2: "Release (WriteLock 1) \<notin> set [Write None]" by simp
  from release_once [OF a h1 h2] obtain s1
    where s1: "release (WriteLock 1) (exec [Write None] init) = Inr s1"
      and all: "\<forall>evs'. release (WriteLock 1) (exec evs' s1) = Inl LockAlreadyReleased"
    by blast
  from s1 b have e: "s1 = exec [Write None, Release (WriteLock 1)] init"
    by (simp only: sum.inject)
  from all have "release (WriteLock 1) (exec [] s1) = Inl LockAlreadyReleased"
    "release (WriteLock 1) (exec [Read None] s1) = Inl LockAlreadyReleased"
    by blast+
  with a b show ?thesis
    unfolding e by (intro conjI)
qed

subsection \<open>Releasing the upgradeable handle invalidates the upgrade handle\<close>

lemma step_keeps_stale:
  assumes "upgraded s \<noteq> Some g" "g < fresh s"
  shows "upgraded (step e s) \<noteq> Some g \<and> g < fresh (step e s)"
proof -
  have ext: "upgraded s' \<noteq> Some g \<and> g < fresh s'"
    if "extends s0 s'" "upgraded s0 \<noteq> Some g" "g < fresh s0" for s0 s'
    using that by (auto simp: extends_def)
  show ?thesis
  proof (cases e s rule: step_cases)
    case same
    with assms show ?thesis by simp
  next
    case request
    from ext [OF this assms] show ?thesis .
  next
    case (release h s0)
    from release(4,9) assms have "upgraded s0 \<noteq> Some g" "g < fresh s0" by auto
    from ext [OF extends_processLockRequests this] release(3) show ?thesis by simp
  next
    case cancel
    with assms show ?thesis by simp
  qed
qed

lemma exec_keeps_stale:
  "upgraded s \<noteq> Some g \<Longrightarrow> g < fresh s \<Longrightarrow> upgraded (exec evs s) \<noteq> Some g"
  by (induction evs arbitrary: s) (simp_all add: step_keeps_stale)

text \<open>
  C9: when the upgradeable handle is released while the lock is upgraded, the release
  succeeds and from then on, whatever happens next, every call of \<open>release\<close> on the
  upgrade handle that was current raises "Lock already released" (and changes nothing).
\<close>

theorem upgrade_handle_invalidated:
  assumes "reachable s" "upgradeable s = Some h" "upgraded s = Some g"
  shows "\<exists>s1. release (UpgradeableLock h) s = Inr s1 \<and>
           (\<forall>evs. release (UpgradeLock g) (exec evs s1) = Inl LockAlreadyReleased \<and>
                  step (Release (UpgradeLock g)) (exec evs s1) = exec evs s1)"
proof -
  let ?s0 = "s\<lparr>count := (if count s = - 1 then 0 else count s - 1),
      upgraded := None, upgradeable := None\<rparr>"
  have s1: "release (UpgradeableLock h) s = Inr (processLockRequests ?s0)"
    using assms(2) by (simp add: releaseUpgradeableReadLock_def)
  from reachable_wellformed [OF assms(1)] assms(3) have "g < fresh s"
    by (simp add: wellformed_def)
  then have "upgraded (processLockRequests ?s0) \<noteq> Some g \<and> g < fresh (processLockRequests ?s0)"
    using extends_processLockRequests [of ?s0] by (auto simp: extends_def)
  then have "upgraded (exec evs (processLockRequests ?s0)) \<noteq> Some g" for evs
    by (simp add: exec_keeps_stale)
  then have "release (UpgradeLock g) (exec evs (processLockRequests ?s0)) = Inl LockAlreadyReleased"
    for evs by simp
  with s1 show ?thesis by simp
qed

theorem upgrade_handle_invalidated_witness:
  "reachable (exec [UpgradeableRead None, Upgrade 1 None] init) \<and>
   upgradeable (exec [UpgradeableRead None, Upgrade 1 None] init) = Some 1 \<and>
   upgraded (exec [UpgradeableRead None, Upgrade 1 None] init) = Some 3 \<and>
   release (UpgradeableLock 1) (exec [UpgradeableRead None, Upgrade 1 None] init) =
     Inr (exec [UpgradeableRead None, Upgrade 1 None, Release (UpgradeableLock 1)] init) \<and>
   release (UpgradeLock 3)
     (exec [] (exec [UpgradeableRead None, Upgrade 1 None, Release (UpgradeableLock 1)] init))
     = Inl LockAlreadyReleased \<and>
   release (UpgradeLock 3)
     (exec [UpgradeableRead None]
        (exec [UpgradeableRead None, Upgrade 1 None, Release (UpgradeableLock 1)] init))
     = Inl LockAlreadyReleased"
proof -
  have r: "reachable (exec [UpgradeableRead None, Upgrade 1 None] init)"
    by (intro reachable_exec reachable_init)
  have u: "upgradeable (exec [UpgradeableRead None, Upgrade 1 None] init) = Some 1"
    "upgraded (exec [UpgradeableRead None, Upgrade 1 None] init) = Some 3"
    by (simp_all add: run_defs)
  have b: "release (UpgradeableLock 1) (exec [UpgradeableRead None, Upgrade 1 None] init) =
     Inr (exec [UpgradeableRead None, Upgrade 1 None, Release (UpgradeableLock 1)] init)"
    by (simp add: run_defs)
  from upgrade_handle_invalidated [OF r u] obtain s1
    where s1: "release (UpgradeableLock 1) (exec [UpgradeableRead None, Upgrade 1 None] init)
        = Inr s1"
      and all: "\<forall>evs. release (UpgradeLock 3) (exec evs s1) = Inl LockAlreadyReleased \<and>
                  step (Release (UpgradeLock 3)) (exec evs s1) = exec evs s1"
    by blast
  from s1 b have e: "s1 = exec [UpgradeableRead None, Upgrade 1 None,
      Release (UpgradeableLock 1)] init"
    by (simp only: sum.inject)
  from all have "release (UpgradeLock 3) (exec [] s1) = Inl LockAlreadyReleased"
    "release (UpgradeLock 3) (exec [UpgradeableRead None] s1) = Inl LockAlreadyReleased"
    by blast+
  with r u b show ?thesis
    unfolding e by (intro conjI)
qed

subsection \<open>Upgrading again\<close>

lemma wake_upgradeable_field:
  assumes "acquire = takeReadLock \<or> acquire = takeWriteLock \<or> acquire = takeUpgradeLock"
  shows "upgradeable (wake acquire w s) = upgradeable s"
  using assms by (auto simp: wake_def take_defs)

lemma fold_wake_upgradeable_field:
  "upgradeable (fold (wake takeReadLock) ws s) = upgradeable s"
  by (induction ws arbitrary: s) (simp_all add: wake_upgradeable_field)

lemma upgradeable_processLockRequests:
  assumes "upgradeable s = Some h"
  shows "upgradeable (processLockRequests s) = Some h"
proof -
  have "processUpgradeableReadLockRequest s = s"
    using assms by (simp add: processUpgradeableReadLockRequest_def canTakeUpgradeableReadLock_def)
  then show ?thesis
    using assms
    by (simp add: processLockRequests_cases processReadLockRequests_def wake_upgradeable_field
        fold_wake_upgradeable_field)
qed

lemma release_upgrade_quiet:
  assumes "upgradeable s = Some h" "upgrades s = []" "readers s = [] \<or> writers s \<noteq> []"
  shows "count (processLockRequests (s\<lparr>upgraded := None, count := 1\<rparr>)) = 1"
    "upgraded (processLockRequests (s\<lparr>upgraded := None, count := 1\<rparr>)) = None"
  using assms
  by (auto simp: processLockRequests_cases processReadLockRequests_def can_defs
      processUpgradeableReadLockRequest_def)

lemma upgrade_synchronous:
  assumes "wellformed s" "upgradeable s = Some h" "count s = 1" "upgraded s = None"
    "\<not> cancellationRequested s tok"
  shows "\<exists>s2. hold_upgrade h tok s = Inr (fresh s, s2) \<and>
      settled s2 (fresh s) = Some (Resolved (UpgradeLock (Suc (fresh s)))) \<and>
      upgraded s2 = Some (Suc (fresh s)) \<and> upgradeable s2 = Some h \<and> count s2 = - 1"
proof -
  from wellformed_newPromise(3) [OF assms(1)] have "settled s (fresh s) = None" .
  then show ?thesis
    using assms(2-5)
    by (simp add: hold_upgrade_def upgrade_def newPromise_def canTakeUpgradeLock_def
        takeUpgradeLock_def settle_def cancellationRequested_iff)
qed

text \<open>
  C10: releasing the upgrade handle hands to rescheduling the state with \<open>upgraded\<close>
  cleared and \<open>count\<close> 1, and rescheduling keeps the upgradeable handle in place; when no
  upgrade waits and no reader is admitted, this is the state after the release. Whenever
  the upgradeable holder is the sole holder again (\<open>count\<close> 1, \<open>upgraded\<close> absent), \<open>upgrade\<close>
  on the same upgradeable handle, with a token that is not cancelled, resolves its promise
  at once with a new upgrade handle and the lock is upgraded again.
\<close>

theorem upgrade_repeatable:
  assumes "reachable s" "upgradeable s = Some h" "upgraded s = Some g"
  shows "release (UpgradeLock g) s = Inr (processLockRequests (s\<lparr>upgraded := None, count := 1\<rparr>)) \<and>
    upgradeable (processLockRequests (s\<lparr>upgraded := None, count := 1\<rparr>)) = Some h \<and>
    (upgrades s = [] \<and> (readers s = [] \<or> writers s \<noteq> []) \<longrightarrow>
       count (processLockRequests (s\<lparr>upgraded := None, count := 1\<rparr>)) = 1 \<and>
       upgraded (processLockRequests (s\<lparr>upgraded := None, count := 1\<rparr>)) = None) \<and>
    (\<forall>s' tok. reachable s' \<and> upgradeable s' = Some h \<and> count s' = 1 \<and> upgraded s' = None \<and>
       \<not> cancellationRequested s' tok \<longrightarrow>
       (\<exists>s2. hold_upgrade h tok s' = Inr (fresh s', s2) \<and>
          settled s2 (fresh s') = Some (Resolved (UpgradeLock (Suc (fresh s')))) \<and>
          upgraded s2 = Some (Suc (fresh s')) \<and> upgradeable s2 = Some h \<and> count s2 = - 1))"
proof -
  have 1: "release (UpgradeLock g) s = Inr (processLockRequests (s\<lparr>upgraded := None, count := 1\<rparr>))"
    using assms(3) by (simp add: releaseUpgradeLock_def)
  have 2: "upgradeable (processLockRequests (s\<lparr>upgraded := None, count := 1\<rparr>)) = Some h"
    using assms(2) by (intro upgradeable_processLockRequests) simp
  show ?thesis
    using 1 2 release_upgrade_quiet [OF assms(2)] upgrade_synchronous reachable_wellformed
    by blast
qed

theorem upgrade_repeatable_witness:
  "reachable (exec [UpgradeableRead None, Upgrade 1 None] init) \<and>
   upgradeable (exec [UpgradeableRead None, Upgrade 1 None] init) = Some 1 \<and>
   upgraded (exec [UpgradeableRead None, Upgrade 1 None] init) = Some 3 \<and>
   release (UpgradeLock 3) (exec [UpgradeableRead None, Upgrade 1 None] init) =
     Inr (exec [UpgradeableRead None, Upgrade 1 None, Release (UpgradeLock 3)] init) \<and>
   count (exec [UpgradeableRead None, Upgrade 1 None, Release (UpgradeLock 3)] init) = 1 \<and>
   upgraded (exec [UpgradeableRead None, Upgrade 1 None, Release (UpgradeLock 3)] init) = None \<and>
   upgradeable (exec [UpgradeableRead None, Upgrade 1 None, Release (UpgradeLock 3)] init)
     = Some 1 \<and>
   fresh (exec [UpgradeableRead None, Upgrade 1 None, Release (UpgradeLock 3)] init) = 4 \<and>
   (\<exists>s2. hold_upgrade 1 None
           (exec [UpgradeableRead None, Upgrade 1 None, Release (UpgradeLock 3)] init)
           = Inr (4, s2) \<and>
         settled s2 4 = Some (Resolved (UpgradeLock 5)) \<and> upgraded s2 = Some 5 \<and>
         upgradeable s2 = Some 1 \<and> count s2 = - 1)"
proof -
  let ?s = "exec [UpgradeableRead None, Upgrade 1 None] init"
  let ?s1 = "exec [UpgradeableRead None, Upgrade 1 None, Release (UpgradeLock 3)] init"
  have r: "reachable ?s" "reachable ?s1"
    by (intro reachable_exec reachable_init)+
  have u: "upgradeable ?s = Some 1" "upgraded ?s = Some 3"
    by (simp_all add: run_defs)
  have b: "release (UpgradeLock 3) ?s = Inr ?s1"
    by (simp add: run_defs)
  have c: "count ?s1 = 1" "upgraded ?s1 = None" "upgradeable ?s1 = Some 1" "fresh ?s1 = 4"
    "\<not> cancellationRequested ?s1 None"
    by (simp_all add: run_defs)
  from upgrade_repeatable [OF r(1) u]
  have "\<forall>s' tok. reachable s' \<and> upgradeable s' = Some 1 \<and> count s' = 1 \<and> upgraded s' = None \<and>
       \<not> cancellationRequested s' tok \<longrightarrow>
       (\<exists>s2. hold_upgrade 1 tok s' = Inr (fresh s', s2) \<and>
          settled s2 (fresh s') = Some (Resolved (UpgradeLock (Suc (fresh s')))) \<and>
          upgraded s2 = Some (Suc (fresh s')) \<and> upgradeable s2 = Some 1 \<and> count s2 = - 1)"
    by blast
  with r(2) c(1,2,3,5)
  have "\<exists>s2. hold_upgrade 1 None ?s1 = Inr (fresh ?s1, s2) \<and>
          settled s2 (fresh ?s1) = Some (Resolved (UpgradeLock (Suc (fresh ?s1)))) \<and>
          upgraded s2 = Some (Suc (fresh ?s1)) \<and> upgradeable s2 = Some 1 \<and> count s2 = - 1"
    by blast
  then have "\<exists>s2. hold_upgrade 1 None ?s1 = Inr (4, s2) \<and>
         settled s2 4 = Some (Resolved (UpgradeLock 5)) \<and> upgraded s2 = Some 5 \<and>
         upgradeable s2 = Some 1 \<and> count s2 = - 1"
    unfolding c(4) by (simp only: Suc_numeral semiring_norm)
  with r(1) u b c(1-4) show ?thesis
    by (intro conjI)
qed

subsection \<open>Waking settles the promise of the waiter\<close>








subsection \<open>Releasing the write lock\<close>






subsection \<open>The order of rescheduling\<close>



lemma wake_holders:
  "upgradeable (wake takeWriteLock w s) = upgradeable s"
  "upgraded (wake takeWriteLock w s) = upgraded s"
  "upgradeable (wake takeUpgradeLock w s) = upgradeable s"
  "upgraded (wake takeUpgradeLock w s) =
     (if cancellationRequested s (snd w) then upgraded s else Some (fresh s))"
  "upgradeable (wake takeUpgradeableReadLock w s) =
     (if cancellationRequested s (snd w) then upgradeable s else Some (fresh s))"
  "upgraded (wake takeUpgradeableReadLock w s) = upgraded s"
  "upgradeable (wake takeReadLock w s) = upgradeable s"
  "upgraded (wake takeReadLock w s) = upgraded s"
  by (simp_all add: wake_def take_defs)


lemma fold_wake_holders:
  "upgradeable (fold (wake takeReadLock) rs s) = upgradeable s"
  "upgraded (fold (wake takeReadLock) rs s) = upgraded s"
  by (induction rs arbitrary: s; simp add: wake_holders)+













subsection \<open>Cancelling a queued waiter\<close>


text \<open>
  C5: the claim fails after the cancellation of a token was requested, while callbacks of
  waiters queued with that token have not run yet. A writer holds the lock; two writers
  with token 7 and a reader without token wait; the cancellation of token 7 is requested
  and the callback of the first waiting writer runs: this writer leaves the list and is
  rejected, the others are untouched. Then, before the callback of the second waiting
  writer runs, the lock is released. Rescheduling takes that writer off the list, its
  closure sees the cancellation and rejects the promise, and rescheduling stops as if the
  writer had been admitted: the lock is free, a read lock could be taken, and the reader is
  left waiting. The callback that runs afterwards changes nothing.
\<close>

theorem cancelled_writer_stops_rescheduling:
  "writers (exec [Write None, Write (Some 7), Write (Some 7), Read None, Cancel 7] init)
     = [(2, Some 7), (3, Some 7)] \<and>
   writers (exec [Write None, Write (Some 7), Write (Some 7), Read None, Cancel 7,
                  Callback (2, Some 7)] init) = [(3, Some 7)] \<and>
   readers (exec [Write None, Write (Some 7), Write (Some 7), Read None, Cancel 7,
                  Callback (2, Some 7)] init) = [(4, None)] \<and>
   settled (exec [Write None, Write (Some 7), Write (Some 7), Read None, Cancel 7,
                  Callback (2, Some 7)] init) 2 = Some (Rejected CancelError) \<and>
   release (WriteLock 1)
     (exec [Write None, Write (Some 7), Write (Some 7), Read None, Cancel 7,
            Callback (2, Some 7)] init) =
     Inr (exec [Write None, Write (Some 7), Write (Some 7), Read None, Cancel 7,
                Callback (2, Some 7), Release (WriteLock 1)] init) \<and>
   settled (exec [Write None, Write (Some 7), Write (Some 7), Read None, Cancel 7,
                  Callback (2, Some 7), Release (WriteLock 1)] init) 3
     = Some (Rejected CancelError) \<and>
   count (exec [Write None, Write (Some 7), Write (Some 7), Read None, Cancel 7,
                Callback (2, Some 7), Release (WriteLock 1)] init) = 0 \<and>
   writers (exec [Write None, Write (Some 7), Write (Some 7), Read None, Cancel 7,
                  Callback (2, Some 7), Release (WriteLock 1)] init) = [] \<and>
   canTakeReadLock (exec [Write None, Write (Some 7), Write (Some 7), Read None, Cancel 7,
                          Callback (2, Some 7), Release (WriteLock 1)] init) \<and>
   readers (exec [Write None, Write (Some 7), Write (Some 7), Read None, Cancel 7,
                  Callback (2, Some 7), Release (WriteLock 1)] init) = [(4, None)] \<and>
   settled (exec [Write None, Write (Some 7), Write (Some 7), Read None, Cancel 7,
                  Callback (2, Some 7), Release (WriteLock 1)] init) 4 = None \<and>
   exec [Write None, Write (Some 7), Write (Some 7), Read None, Cancel 7,
         Callback (2, Some 7), Release (WriteLock 1), Callback (3, Some 7)] init
     = exec [Write None, Write (Some 7), Write (Some 7), Read None, Cancel 7,
             Callback (2, Some 7), Release (WriteLock 1)] init"
  by (simp add: run_defs)

subsection \<open>Writers go before readers\<close>






lemma reads_cong:
  "settled s' = settled s \<Longrightarrow> readGrants s' = readGrants s"
  "released s' = released s \<Longrightarrow> readHandles s' = readHandles s"
  by (simp_all add: readGrants_def readHandles_def)


















end
